theory Spec2Isabelle
  imports Complex_Main "HOL-Library.Word" "HOL-Library.Sublist"
begin

section \<open>JavaScript strings\<close>

text \<open>
  A JavaScript string is a sequence of UTF-16 code units. The regular expressions of the
  plugin carry no \<open>u\<close> flag, so they too work on code units.
\<close>

type_synonym cu = "16 word"
type_synonym jsstring = "cu list"

definition js :: "string \<Rightarrow> jsstring" where
  "js s = map (\<lambda>c. of_nat (of_char c)) s"

text \<open>\<open>String.prototype.startsWith\<close> and \<open>String.prototype.includes\<close>.\<close>

fun startsWith :: "jsstring \<Rightarrow> jsstring \<Rightarrow> bool" where
  "startsWith s [] = True"
| "startsWith [] (p # ps) = False"
| "startsWith (x # xs) (p # ps) = (x = p \<and> startsWith xs ps)"

fun includes_str :: "jsstring \<Rightarrow> jsstring \<Rightarrow> bool" where
  "includes_str [] p = (p = [])"
| "includes_str (x # xs) p = (startsWith (x # xs) p \<or> includes_str xs p)"

text \<open>\<open>Array.prototype.join\<close> on an array of strings.\<close>

fun join :: "jsstring \<Rightarrow> jsstring list \<Rightarrow> jsstring" where
  "join sep [] = []"
| "join sep [x] = x"
| "join sep (x # y # ys) = x @ sep @ join sep (y # ys)"

text \<open>\<open>String.prototype.split\<close> with a separator of one code unit.\<close>

fun split :: "cu \<Rightarrow> jsstring \<Rightarrow> jsstring list" where
  "split sep [] = [[]]"
| "split sep (x # xs) =
     (if x = sep then [] # split sep xs
      else (case split sep xs of [] \<Rightarrow> [[x]] | p # ps \<Rightarrow> (x # p) # ps))"

section \<open>Regular expressions\<close>

text \<open>
  The fragment of ECMAScript regular expressions that the plugin's patterns use.
  Quantifiers other than \<open>?\<close> are only ever applied to a character class, which keeps
  the matcher structurally recursive. \<open>Star\<close> is the greedy \<open>*\<close>, \<open>LazyStar\<close>
  is \<open>*?\<close>, \<open>Opt\<close> the greedy \<open>?\<close>, \<open>Grp k\<close> the \<open>k\<close>-th capturing group,
  \<open>Bol\<close> and \<open>Eol\<close> are \<open>^\<close> and \<open>$\<close> without the \<open>m\<close> flag.
\<close>

datatype re =
    Eps
  | Lit cu
  | Cls "cu \<Rightarrow> bool"
  | Seq re re
  | Alt re re
  | Opt re
  | Star "cu \<Rightarrow> bool"
  | LazyStar "cu \<Rightarrow> bool"
  | Grp nat re
  | Bol
  | Eol

text \<open>A literal string, \<open>c+\<close> and \<open>c{n}\<close> are sequences.\<close>

fun Str :: "jsstring \<Rightarrow> re" where
  "Str [] = Eps"
| "Str (c # cs) = Seq (Lit c) (Str cs)"

definition Plus :: "(cu \<Rightarrow> bool) \<Rightarrow> re" where
  "Plus C = Seq (Cls C) (Star C)"

fun Rep :: "nat \<Rightarrow> (cu \<Rightarrow> bool) \<Rightarrow> re" where
  "Rep 0 C = Eps"
| "Rep (Suc n) C = Seq (Cls C) (Rep n C)"

fun seqs :: "re list \<Rightarrow> re" where
  "seqs [] = Eps"
| "seqs (r # rs) = Seq r (seqs rs)"

text \<open>
  A matcher state: the index reached in the input, the input that remains there, and the
  captures so far (an absent key is JavaScript's \<open>undefined\<close>).
\<close>

type_synonym captures = "nat \<rightharpoonup> jsstring"
type_synonym mstate = "nat \<times> jsstring \<times> captures"

text \<open>
  The ways to match a greedy (lazy) starred class at a state, in the order in which the
  backtracking matcher tries them: longest (shortest) first.
\<close>

fun greedy :: "(cu \<Rightarrow> bool) \<Rightarrow> nat \<Rightarrow> jsstring \<Rightarrow> captures \<Rightarrow> mstate list" where
  "greedy C i [] c = [(i, [], c)]"
| "greedy C i (x # xs) c =
     (if C x then greedy C (Suc i) xs c @ [(i, x # xs, c)] else [(i, x # xs, c)])"

fun lazy :: "(cu \<Rightarrow> bool) \<Rightarrow> nat \<Rightarrow> jsstring \<Rightarrow> captures \<Rightarrow> mstate list" where
  "lazy C i [] c = [(i, [], c)]"
| "lazy C i (x # xs) c =
     (if C x then (i, x # xs, c) # lazy C (Suc i) xs c else [(i, x # xs, c)])"

text \<open>
  \<open>run r st\<close> lists every state in which a match of \<open>r\<close> begun at \<open>st\<close> can end, in
  the priority order of the backtracking matcher; the head of the list is the match that
  the engine reports.
\<close>

fun run :: "re \<Rightarrow> mstate \<Rightarrow> mstate list" where
  "run Eps st = [st]"
| "run (Lit a) (i, s, c) =
     (case s of [] \<Rightarrow> [] | x # xs \<Rightarrow> if x = a then [(Suc i, xs, c)] else [])"
| "run (Cls C) (i, s, c) =
     (case s of [] \<Rightarrow> [] | x # xs \<Rightarrow> if C x then [(Suc i, xs, c)] else [])"
| "run (Seq r1 r2) st = concat (map (run r2) (run r1 st))"
| "run (Alt r1 r2) st = run r1 st @ run r2 st"
| "run (Opt r) st = run r st @ [st]"
| "run (Star C) (i, s, c) = greedy C i s c"
| "run (LazyStar C) (i, s, c) = lazy C i s c"
| "run (Grp k r) (i, s, c) =
     map (\<lambda>(j, s', c'). (j, s', c'(k \<mapsto> take (j - i) s))) (run r (i, s, c))"
| "run Bol (i, s, c) = (if i = 0 then [(i, s, c)] else [])"
| "run Eol (i, s, c) = (if s = [] then [(i, s, c)] else [])"

text \<open>A match result: where it starts and ends, the matched text and the captures.\<close>

record rmatch =
  m_index :: nat
  m_end :: nat
  m_text :: jsstring
  m_groups :: captures

text \<open>One attempt at index \<open>i\<close>, where \<open>s\<close> is the input from \<open>i\<close> on.\<close>

definition exec_at :: "re \<Rightarrow> nat \<Rightarrow> jsstring \<Rightarrow> rmatch option" where
  "exec_at r i s =
     (case run r (i, s, Map.empty) of
        [] \<Rightarrow> None
      | (j, s', c) # _ \<Rightarrow>
          Some \<lparr>m_index = i, m_end = j, m_text = take (j - i) s, m_groups = c\<rparr>)"

text \<open>
  \<open>String.prototype.match\<close> with a pattern without the \<open>g\<close> flag: the attempt is
  repeated at every index from the left, the end of the input included.
\<close>

fun search_from :: "re \<Rightarrow> nat \<Rightarrow> jsstring \<Rightarrow> rmatch option" where
  "search_from r i [] = exec_at r i []"
| "search_from r i (x # xs) =
     (case exec_at r i (x # xs) of
        Some m \<Rightarrow> Some m
      | None \<Rightarrow> search_from r (Suc i) xs)"

definition match :: "re \<Rightarrow> jsstring \<Rightarrow> rmatch option" where
  "match r s = search_from r 0 s"

text \<open>
  \<open>String.prototype.matchAll\<close> with a \<open>g\<close> pattern: the search resumes where the last
  match ended, one code unit further on when that match was empty.
\<close>

function matchAll_from :: "re \<Rightarrow> nat \<Rightarrow> jsstring \<Rightarrow> rmatch list" where
  "matchAll_from r i s =
     (case exec_at r i s of
        Some m \<Rightarrow>
          m # (if s = [] then []
               else matchAll_from r (i + max 1 (m_end m - i)) (drop (max 1 (m_end m - i)) s))
      | None \<Rightarrow>
          (if s = [] then [] else matchAll_from r (Suc i) (tl s)))"
  by pat_completeness auto
termination
  by (relation "measure (\<lambda>(r, i, s). length s)") auto

declare matchAll_from.simps [simp del]

definition matchAll :: "re \<Rightarrow> jsstring \<Rightarrow> rmatch list" where
  "matchAll r s = matchAll_from r 0 s"

text \<open>
  \<open>String.prototype.replace\<close> with a \<open>g\<close> pattern and a replacer function: the pieces
  between the matches are kept and every match is replaced by the function's result.
\<close>

fun splice :: "(rmatch \<Rightarrow> jsstring) \<Rightarrow> jsstring \<Rightarrow> nat \<Rightarrow> rmatch list \<Rightarrow> jsstring" where
  "splice f s pos [] = drop pos s"
| "splice f s pos (m # ms) =
     take (m_index m - pos) (drop pos s) @ f m @ splice f s (m_end m) ms"

definition replace_g :: "re \<Rightarrow> (rmatch \<Rightarrow> jsstring) \<Rightarrow> jsstring \<Rightarrow> jsstring" where
  "replace_g r f s = splice f s 0 (matchAll r s)"

text \<open>\<open>String.prototype.replace\<close> with a pattern without \<open>g\<close> and a fixed replacement.\<close>

definition replace1 :: "re \<Rightarrow> jsstring \<Rightarrow> jsstring \<Rightarrow> jsstring" where
  "replace1 r new s =
     (case match r s of
        None \<Rightarrow> s
      | Some m \<Rightarrow> take (m_index m) s @ new @ drop (m_end m) s)"

subsection \<open>Character classes\<close>

definition in_range :: "cu \<Rightarrow> cu \<Rightarrow> cu \<Rightarrow> bool" where
  "in_range lo hi c = (lo \<le> c \<and> c \<le> hi)"

definition is_digit :: "cu \<Rightarrow> bool" where
  "is_digit c = in_range 0x30 0x39 c"

definition is_hex :: "cu \<Rightarrow> bool" where
  "is_hex c = (in_range 0x61 0x66 c \<or> in_range 0x41 0x46 c \<or> in_range 0x30 0x39 c)"

definition is_word :: "cu \<Rightarrow> bool" where
  "is_word c = (in_range 0x61 0x7A c \<or> in_range 0x41 0x5A c \<or> in_range 0x30 0x39 c \<or> c = 0x5F)"

text \<open>\<open>[a-zA-Z0-9_-]\<close>\<close>

definition is_id_char :: "cu \<Rightarrow> bool" where
  "is_id_char c = (in_range 0x61 0x7A c \<or> in_range 0x41 0x5A c \<or> in_range 0x30 0x39 c
     \<or> c = 0x5F \<or> c = 0x2D)"

text \<open>\<open>\s\<close>: the white space and line terminator code units of ECMAScript.\<close>

definition is_space :: "cu \<Rightarrow> bool" where
  "is_space c = (in_range 0x09 0x0D c \<or> c = 0x20 \<or> c = 0xA0 \<or> c = 0x1680
     \<or> in_range 0x2000 0x200A c \<or> c = 0x2028 \<or> c = 0x2029 \<or> c = 0x202F
     \<or> c = 0x205F \<or> c = 0x3000 \<or> c = 0xFEFF)"

text \<open>\<open>.\<close>: anything but a line terminator.\<close>

definition is_dot :: "cu \<Rightarrow> bool" where
  "is_dot c = (c \<noteq> 0x0A \<and> c \<noteq> 0x0D \<and> c \<noteq> 0x2028 \<and> c \<noteq> 0x2029)"

definition one_of :: "string \<Rightarrow> cu \<Rightarrow> bool" where
  "one_of s c = (c \<in> set (js s))"

section \<open>The reference detector\<close>

text \<open>The five patterns of \<open>VIDEO_ID_PATTERNS\<close>, each a literal followed by the captured token.\<close>

definition id_pattern :: "string \<Rightarrow> re" where
  "id_pattern p = Seq (Str (js p)) (Grp 1 (Rep 11 is_id_char))"

definition VIDEO_ID_PREFIXES :: "string list" where
  "VIDEO_ID_PREFIXES =
     [''youtube.com/watch?v='', ''youtu.be/'', ''youtube.com/embed/'', ''youtube.com/v/'',
      ''youtube.com/shorts/'']"

definition VIDEO_ID_PATTERNS :: "re list" where
  "VIDEO_ID_PATTERNS = map id_pattern VIDEO_ID_PREFIXES"

text \<open>
  \<open>match?.[1]\<close> is truthy when the pattern matched and its group is a non-empty string.
\<close>

fun first_id :: "re list \<Rightarrow> jsstring \<Rightarrow> jsstring option" where
  "first_id [] url = None"
| "first_id (p # ps) url =
     (case match p url of
        None \<Rightarrow> first_id ps url
      | Some m \<Rightarrow>
          (case m_groups m 1 of
             None \<Rightarrow> first_id ps url
           | Some g \<Rightarrow> if g \<noteq> [] then Some g else first_id ps url))"

definition extractVideoId :: "jsstring \<Rightarrow> jsstring option" where
  "extractVideoId url = first_id VIDEO_ID_PATTERNS url"

text \<open>
  \<open>addUrl\<close>: the membership test is made on the URL as it was matched, and the URL
  is pushed after \<open>replace(/[),.\]>]+$/, "")\<close>.
\<close>

definition TRAILING :: re where
  "TRAILING = Seq (Plus (one_of ''),.]>'')) Eol"

definition addUrl :: "jsstring list \<Rightarrow> jsstring option \<Rightarrow> jsstring list" where
  "addUrl urls u =
     (case u of
        None \<Rightarrow> urls
      | Some url \<Rightarrow>
          if url \<noteq> [] \<and> url \<notin> set urls then urls @ [replace1 TRAILING [] url] else urls)"

text \<open>\<open>/^---\n([\s\S]*?)\n---/\<close>\<close>

definition FRONTMATTER :: re where
  "FRONTMATTER =
     seqs [Bol, Str (js ''---\<newline>''),
           Grp 1 (LazyStar (\<lambda>c. is_space c \<or> \<not> is_space c)),
           Str (js ''\<newline>---'')]"

text \<open>\<open>[^\s"'\n]\<close>; the double quote is code unit \<open>0x22\<close>, the single quote \<open>0x27\<close>.\<close>

definition is_quote :: "cu \<Rightarrow> bool" where
  "is_quote c = (c = 0x22 \<or> c = 0x27)"

definition not_space_quote :: "cu \<Rightarrow> bool" where
  "not_space_quote c = (\<not> (is_space c \<or> is_quote c \<or> c = 0x0A))"

text \<open>\<open>/source:\s*["']?(https?:\/\/[^\s"'\n]+youtube[^\s"'\n]+)["']?/\<close>\<close>

definition SOURCE :: re where
  "SOURCE =
     seqs [Str (js ''source:''), Star is_space, Opt (Cls is_quote),
           Grp 1 (seqs [Str (js ''http''), Opt (Lit 0x73), Str (js ''://''),
                        Plus not_space_quote, Str (js ''youtube''), Plus not_space_quote]),
           Opt (Cls is_quote)]"

text \<open>\<open>/!?\[.*?\]\((https?:\/\/(?:www\.)?(?:youtube\.com|youtu\.be)[^\s)]+)\)/g\<close>\<close>

definition MARKDOWN :: re where
  "MARKDOWN =
     seqs [Opt (Lit 0x21), Lit 0x5B, LazyStar is_dot, Lit 0x5D, Lit 0x28,
           Grp 1 (seqs [Str (js ''http''), Opt (Lit 0x73), Str (js ''://''),
                        Opt (Str (js ''www.'')),
                        Alt (Str (js ''youtube.com'')) (Str (js ''youtu.be'')),
                        Plus (\<lambda>c. \<not> (is_space c \<or> c = 0x29))]),
           Lit 0x29]"

text \<open>
  \<open>/(https?:\/\/(?:www\.)?(?:youtube\.com\/watch\?v=|youtu\.be\/)[a-zA-Z0-9_-]{11}[^\s)\]>]*)/g\<close>
\<close>

definition PLAIN :: re where
  "PLAIN =
     Grp 1 (seqs [Str (js ''http''), Opt (Lit 0x73), Str (js ''://''),
                  Opt (Str (js ''www.'')),
                  Alt (Str (js ''youtube.com/watch?v='')) (Str (js ''youtu.be/'')),
                  Rep 11 is_id_char,
                  Star (\<lambda>c. \<not> (is_space c \<or> one_of '')]>'' c))])"

text \<open>\<open>m?.[1]\<close> of an optional match.\<close>

definition group1 :: "rmatch option \<Rightarrow> jsstring option" where
  "group1 m = (case m of None \<Rightarrow> None | Some r \<Rightarrow> m_groups r 1)"

definition findYouTubeUrls :: "jsstring \<Rightarrow> jsstring list" where
  "findYouTubeUrls content =
     (let frontmatter = group1 (match FRONTMATTER content);
          urls1 = (case frontmatter of
                     None \<Rightarrow> []
                   | Some fm \<Rightarrow> if fm \<noteq> [] then addUrl [] (group1 (match SOURCE fm)) else []);
          urls2 = foldl (\<lambda>urls m. addUrl urls (m_groups m 1)) urls1 (matchAll MARKDOWN content);
          urls3 = foldl (\<lambda>urls m. addUrl urls (m_groups m 1)) urls2 (matchAll PLAIN content)
      in urls3)"

section \<open>Numbers\<close>

text \<open>
  The Number value of a non-negative integer: the nearest double, ties to even, and
  infinity from \<open>2^1024 - 2^970\<close> on. Integers below \<open>2^53\<close> are their own Number
  value.
\<close>

datatype jsnumber = Finite int | Infinity

function bit_length :: "int \<Rightarrow> nat" where
  "bit_length n = (if n \<le> 0 then 0 else Suc (bit_length (n div 2)))"
  by pat_completeness auto
termination
  by (relation "measure nat") auto

declare bit_length.simps [simp del]

definition to_number :: "int \<Rightarrow> jsnumber" where
  "to_number n =
     (if n < 2 ^ 53 then Finite n
      else let e = bit_length n - 53;
               q = n div 2 ^ e;
               r = n mod 2 ^ e;
               h = 2 ^ (e - 1);
               q' = (if h < r \<or> (r = h \<and> odd q) then q + 1 else q)
           in if 2 ^ 1024 \<le> q' * 2 ^ e then Infinity else Finite (q' * 2 ^ e))"

text \<open>
  \<open>parseInt(s, radix)\<close> on a string that consists of digits of the radix (the capture
  groups of the entity pattern hand it nothing else).
\<close>

definition digit_value :: "cu \<Rightarrow> int" where
  "digit_value c =
     (if in_range 0x30 0x39 c then uint c - 0x30
      else if in_range 0x61 0x7A c then uint c - 0x61 + 10
      else uint c - 0x41 + 10)"

definition radix_value :: "int \<Rightarrow> jsstring \<Rightarrow> int" where
  "radix_value radix s = foldl (\<lambda>acc c. acc * radix + digit_value c) 0 s"

definition parseInt :: "jsstring \<Rightarrow> int \<Rightarrow> jsnumber" where
  "parseInt s radix = to_number (radix_value radix s)"

text \<open>\<open>String.fromCharCode\<close> applies \<open>ToUint16\<close>: infinity becomes 0.\<close>

definition fromCharCode :: "jsnumber \<Rightarrow> jsstring" where
  "fromCharCode x = (case x of Finite n \<Rightarrow> [word_of_int n] | Infinity \<Rightarrow> [0])"

subsection \<open>Doubles\<close>

text \<open>
  A Number value is a double: not-a-number, one of the two infinities, the negative zero,
  or a finite double, which is given by its value, a rational number; \<open>Fin 0\<close> is the
  positive zero. A positive rational \<open>r\<close> with \<open>2^e \<le> r < 2^(e+1)\<close> lies between
  multiples of \<open>2^(e-52)\<close>, and of \<open>2^(-1074)\<close> when that is larger (gradual underflow);
  \<open>round_pos r\<close> is the nearest of them, the one with the even multiplier in a tie.
  \<open>rounded neg r\<close> is the Number value of a magnitude \<open>r\<close> and a sign: the rounded
  magnitude, infinity when that reaches \<open>2^1024\<close>.
\<close>

datatype number = NaN | PosInf | NegInf | NegZero | Fin rat

definition pow2 :: "int \<Rightarrow> rat" where
  "pow2 e = (if 0 \<le> e then of_int (2 ^ nat e) else 1 / of_int (2 ^ nat (- e)))"

definition ilog2 :: "rat \<Rightarrow> int" where
  "ilog2 r =
     (let (p, q) = quotient_of r;
          e = int (bit_length p) - int (bit_length q)
      in if pow2 e \<le> r then e else e - 1)"

definition round_even :: "rat \<Rightarrow> int" where
  "round_even s =
     (let f = \<lfloor>s\<rfloor>; d = s - of_int f
      in if 1 / 2 < d \<or> (d = 1 / 2 \<and> odd f) then f + 1 else f)"

definition ulp_exp :: "rat \<Rightarrow> int" where
  "ulp_exp r = max (ilog2 r - 52) (- 1074)"

definition round_pos :: "rat \<Rightarrow> rat" where
  "round_pos r = of_int (round_even (r / pow2 (ulp_exp r))) * pow2 (ulp_exp r)"

definition signed_zero :: "bool \<Rightarrow> number" where
  "signed_zero neg = (if neg then NegZero else Fin 0)"

definition signed_inf :: "bool \<Rightarrow> number" where
  "signed_inf neg = (if neg then NegInf else PosInf)"

definition rounded :: "bool \<Rightarrow> rat \<Rightarrow> number" where
  "rounded neg r =
     (if r = 0 then signed_zero neg
      else let v = round_pos r
           in if 1024 \<le> ilog2 v then signed_inf neg
              else if v = 0 then signed_zero neg
              else Fin (if neg then - v else v))"

fun negative :: "number \<Rightarrow> bool" where
  "negative NegInf = True"
| "negative NegZero = True"
| "negative (Fin a) = (a < 0)"
| "negative _ = False"

fun magnitude :: "number \<Rightarrow> rat" where
  "magnitude (Fin a) = \<bar>a\<bar>"
| "magnitude _ = 0"

fun infinite_n :: "number \<Rightarrow> bool" where
  "infinite_n PosInf = True"
| "infinite_n NegInf = True"
| "infinite_n _ = False"

fun zero_n :: "number \<Rightarrow> bool" where
  "zero_n NegZero = True"
| "zero_n (Fin a) = (a = 0)"
| "zero_n _ = False"

text \<open>The operators \<open>*\<close>, \<open>/\<close> and \<open>%\<close> on Numbers, \<open>Math.floor\<close> and \<open><\<close>.\<close>

definition Number_multiply :: "number \<Rightarrow> number \<Rightarrow> number" where
  "Number_multiply x y =
     (if x = NaN \<or> y = NaN then NaN
      else if infinite_n x \<or> infinite_n y then
        (if zero_n x \<or> zero_n y then NaN else signed_inf (negative x \<noteq> negative y))
      else rounded (negative x \<noteq> negative y) (magnitude x * magnitude y))"

definition Number_divide :: "number \<Rightarrow> number \<Rightarrow> number" where
  "Number_divide x y =
     (if x = NaN \<or> y = NaN then NaN
      else if infinite_n x then
        (if infinite_n y then NaN else signed_inf (negative x \<noteq> negative y))
      else if infinite_n y then signed_zero (negative x \<noteq> negative y)
      else if zero_n y then
        (if zero_n x then NaN else signed_inf (negative x \<noteq> negative y))
      else rounded (negative x \<noteq> negative y) (magnitude x / magnitude y))"

definition Number_remainder :: "number \<Rightarrow> number \<Rightarrow> number" where
  "Number_remainder n d =
     (if n = NaN \<or> d = NaN \<or> infinite_n n \<or> zero_n d then NaN
      else if infinite_n d \<or> zero_n n then n
      else let a = magnitude n; b = magnitude d;
               r = a - b * of_int \<lfloor>a / b\<rfloor>
           in if r = 0 then signed_zero (negative n)
              else Fin (if negative n then - r else r))"

definition Math_floor :: "number \<Rightarrow> number" where
  "Math_floor x = (case x of Fin a \<Rightarrow> Fin (of_int \<lfloor>a\<rfloor>) | _ \<Rightarrow> x)"

definition Number_lessThan :: "number \<Rightarrow> number \<Rightarrow> bool option" where
  "Number_lessThan x y =
     (if x = NaN \<or> y = NaN then None
      else if x = PosInf \<or> y = NegInf then Some False
      else if y = PosInf \<or> x = NegInf then Some True
      else Some (magnitude x * (if negative x then - 1 else 1)
                   < magnitude y * (if negative y then - 1 else 1)))"

text \<open>
  \<open>Number.prototype.toString\<close> with the radix 10. The numeral of a positive double is
  made of the shortest sequence of digits \<open>s\<close>, \<open>k\<close> of them, for which some
  \<open>s \<times> 10^(n-k)\<close> has the double as its Number value, the nearest such \<open>s\<close> when there
  are two; for an integer below \<open>2^53\<close> that is the decimal numeral of the integer.
  Seventeen digits are enough for every double.
\<close>

function decimal :: "int \<Rightarrow> jsstring" where
  "decimal n = (if n < 10 then [0x30 + of_int n] else decimal (n div 10) @ [0x30 + of_int (n mod 10)])"
  by pat_completeness auto
termination
  by (relation "measure nat") auto

declare decimal.simps [simp del]

definition pow10 :: "int \<Rightarrow> rat" where
  "pow10 e = (if 0 \<le> e then of_int (10 ^ nat e) else 1 / of_int (10 ^ nat (- e)))"

text \<open>The \<open>n\<close> with \<open>10^(n-1) \<le> a < 10^n\<close>.\<close>

definition dexp :: "rat \<Rightarrow> int" where
  "dexp a =
     (if 1 \<le> a then int (length (decimal \<lfloor>a\<rfloor>))
      else 1 - int (length (decimal (\<lceil>1 / a\<rceil> - 1))))"

definition digits_of_length :: "rat \<Rightarrow> int \<Rightarrow> int \<Rightarrow> int option" where
  "digits_of_length a n k =
     (let x = a / pow10 (n - k); lo = \<lfloor>x\<rfloor>
      in case (rounded False (of_int lo * pow10 (n - k)) = Fin a,
               rounded False (of_int (lo + 1) * pow10 (n - k)) = Fin a) of
           (True, True) \<Rightarrow>
             Some (if x - of_int lo < 1 / 2 \<or> (x - of_int lo = 1 / 2 \<and> even lo) then lo
                   else lo + 1)
         | (True, False) \<Rightarrow> Some lo
         | (False, True) \<Rightarrow> Some (lo + 1)
         | (False, False) \<Rightarrow> None)"

fun shortest_from :: "rat \<Rightarrow> int \<Rightarrow> int \<Rightarrow> nat \<Rightarrow> int \<times> int \<times> int" where
  "shortest_from a n k 0 = (n, k, \<lfloor>a / pow10 (n - k)\<rfloor>)"
| "shortest_from a n k (Suc fuel) =
     (case digits_of_length a n k of
        Some s \<Rightarrow> if s = 10 ^ nat k then (n + 1, 1, 1) else (n, k, s)
      | None \<Rightarrow> shortest_from a n (k + 1) fuel)"

definition shortest :: "rat \<Rightarrow> int \<times> int \<times> int" where
  "shortest a = shortest_from a (dexp a) 1 17"

definition positive_toString :: "rat \<Rightarrow> jsstring" where
  "positive_toString a =
     (if a = of_int \<lfloor>a\<rfloor> \<and> a < 2 ^ 53 then decimal \<lfloor>a\<rfloor>
      else let (n, k, s) = shortest a; ds = decimal s
           in if k \<le> n \<and> n \<le> 21 then ds @ replicate (nat (n - k)) 0x30
              else if 0 < n \<and> n \<le> 21 then take (nat n) ds @ js ''.'' @ drop (nat n) ds
              else if - 6 < n \<and> n \<le> 0 then js ''0.'' @ replicate (nat (- n)) 0x30 @ ds
              else (if k = 1 then ds else hd ds # js ''.'' @ tl ds)
                     @ js ''e'' @ (if n - 1 < 0 then js ''-'' else js ''+'') @ decimal \<bar>n - 1\<bar>)"

definition toString :: "number \<Rightarrow> jsstring" where
  "toString x =
     (case x of
        NaN \<Rightarrow> js ''NaN''
      | PosInf \<Rightarrow> js ''Infinity''
      | NegInf \<Rightarrow> js ''-Infinity''
      | NegZero \<Rightarrow> js ''0''
      | Fin a \<Rightarrow>
          if a = 0 then js ''0''
          else if a < 0 then js ''-'' @ positive_toString (- a)
          else positive_toString a)"

text \<open>
  \<open>parseFloat\<close>: leading white space is dropped, the longest prefix that is a decimal
  literal (a sign, then \<open>Infinity\<close> or digits with an optional fraction and an optional
  exponent) is read, and its value is rounded; without such a prefix the result is
  not-a-number.
\<close>

definition parseFloat :: "jsstring \<Rightarrow> number" where
  "parseFloat string =
     (let trimmed = dropWhile is_space string;
          neg = startsWith trimmed (js ''-'');
          unsigned = (if neg \<or> startsWith trimmed (js ''+'') then tl trimmed else trimmed)
      in if startsWith unsigned (js ''Infinity'') then signed_inf neg
         else
           let ip = takeWhile is_digit unsigned;
               r1 = dropWhile is_digit unsigned;
               fp = (if startsWith r1 (js ''.'') then takeWhile is_digit (tl r1) else []);
               r2 = (if startsWith r1 (js ''.'') then dropWhile is_digit (tl r1) else r1);
               r3 = (if startsWith r2 (js ''e'') \<or> startsWith r2 (js ''E'') then tl r2 else []);
               eneg = startsWith r3 (js ''-'');
               ed = takeWhile is_digit
                      (if eneg \<or> startsWith r3 (js ''+'') then tl r3 else r3);
               ex = (if eneg then - radix_value 10 ed else radix_value 10 ed)
           in if ip = [] \<and> fp = [] then NaN
              else rounded neg (of_int (radix_value 10 (ip @ fp)) * pow10 (ex - int (length fp))))"

text \<open>\<open>String.prototype.padStart\<close> with a filler of one code unit.\<close>

definition padStart :: "nat \<Rightarrow> cu \<Rightarrow> jsstring \<Rightarrow> jsstring" where
  "padStart n c s = replicate (n - length s) c @ s"

section \<open>The caption parser and the entity decoder\<close>

text \<open>\<open>/<text start="([^"]*)" dur="([^"]*)">([^<]*)<\/text>/g\<close>\<close>

definition RE_XML_TRANSCRIPT :: re where
  "RE_XML_TRANSCRIPT =
     seqs [Str (js ''<text start='') , Lit 0x22, Grp 1 (Star (\<lambda>c. c \<noteq> 0x22)), Lit 0x22,
           Str (js '' dur=''), Lit 0x22, Grp 2 (Star (\<lambda>c. c \<noteq> 0x22)), Lit 0x22, Lit 0x3E,
           Grp 3 (Star (\<lambda>c. c \<noteq> 0x3C)), Str (js ''</text>'')]"

text \<open>The own properties of the object \<open>NAMED_ENTITIES\<close>.\<close>

definition NAMED_ENTITIES :: "(string \<times> string) list" where
  "NAMED_ENTITIES =
     [(''amp'', ''&''), (''lt'', ''<''), (''gt'', ''>''), (''quot'', [CHR 0x22]),
      (''apos'', [CHR 0x27]), (''nbsp'', '' '')]"

text \<open>
  \<open>NAMED_ENTITIES\<close> is an object literal, so its prototype is \<open>Object.prototype\<close>
  and a property read that finds no own property goes on there. Every property of
  \<open>Object.prototype\<close> is a function, but for the accessor \<open>__proto__\<close>, which reads
  as \<open>Object.prototype\<close> itself. All of them are truthy, and where the replacer
  function returns one, \<open>replace\<close> applies \<open>ToString\<close> to it. The table gives these
  strings as V8 prints them.
\<close>

definition native_function :: "string \<Rightarrow> string" where
  "native_function name = ''function '' @ name @ ''() { [native code] }''"

definition OBJECT_PROTOTYPE :: "(string \<times> string) list" where
  "OBJECT_PROTOTYPE =
     [(''constructor'', native_function ''Object''),
      (''__defineGetter__'', native_function ''__defineGetter__''),
      (''__defineSetter__'', native_function ''__defineSetter__''),
      (''hasOwnProperty'', native_function ''hasOwnProperty''),
      (''__lookupGetter__'', native_function ''__lookupGetter__''),
      (''__lookupSetter__'', native_function ''__lookupSetter__''),
      (''isPrototypeOf'', native_function ''isPrototypeOf''),
      (''propertyIsEnumerable'', native_function ''propertyIsEnumerable''),
      (''toString'', native_function ''toString''),
      (''valueOf'', native_function ''valueOf''),
      (''__proto__'', ''[object Object]''),
      (''toLocaleString'', native_function ''toLocaleString'')]"

text \<open>
  \<open>NAMED_ENTITIES[named]\<close>, as the replacer uses it: \<open>None\<close> is \<open>undefined\<close>, and a
  found value is given by the string that ends up in the output.
\<close>

definition get_property :: "(string \<times> string) list \<Rightarrow> jsstring \<Rightarrow> jsstring option" where
  "get_property obj key = map_option js (map_of (map (\<lambda>(k, v). (js k, v)) obj) key)"

definition NAMED_ENTITIES_get :: "jsstring \<Rightarrow> jsstring option" where
  "NAMED_ENTITIES_get named =
     (case get_property NAMED_ENTITIES named of
        Some v \<Rightarrow> Some v
      | None \<Rightarrow> get_property OBJECT_PROTOTYPE named)"

text \<open>\<open>/&(?:#(\d+)|#x([a-fA-F0-9]+)|(\w+));/g\<close>\<close>

definition ENTITY :: re where
  "ENTITY =
     seqs [Lit 0x26,
           Alt (Seq (Lit 0x23) (Grp 1 (Plus is_digit)))
               (Alt (Seq (Str (js ''#x'')) (Grp 2 (Plus is_hex)))
                    (Grp 3 (Plus is_word))),
           Lit 0x3B]"

text \<open>A group is truthy when it took part in the match and is not the empty string.\<close>

definition truthy :: "jsstring option \<Rightarrow> bool" where
  "truthy g = (case g of None \<Rightarrow> False | Some s \<Rightarrow> s \<noteq> [])"

definition replacer :: "rmatch \<Rightarrow> jsstring" where
  "replacer m =
     (if truthy (m_groups m 1) then fromCharCode (parseInt (the (m_groups m 1)) 10)
      else if truthy (m_groups m 2) then fromCharCode (parseInt (the (m_groups m 2)) 16)
      else if truthy (m_groups m 3) then
        (case NAMED_ENTITIES_get (the (m_groups m 3)) of
           Some entity \<Rightarrow> entity
         | None \<Rightarrow> m_text m)
      else m_text m)"

definition decode :: "jsstring \<Rightarrow> jsstring" where
  "decode input = replace_g ENTITY replacer input"

definition decodeXmlEntities :: "jsstring \<Rightarrow> jsstring" where
  "decodeXmlEntities txt = decode (decode txt)"

text \<open>A transcript entry.\<close>

record TranscriptEntry =
  entry_text :: jsstring
  entry_duration :: number
  entry_offset :: number
  entry_lang :: "jsstring option"

datatype thrown = Error jsstring | NotAnError

definition NoEntriesFound :: thrown where
  "NoEntriesFound = Error (js ''No transcript entries found in response.'')"

definition entry_of :: "jsstring \<Rightarrow> rmatch \<Rightarrow> TranscriptEntry option" where
  "entry_of lang m =
     (if truthy (m_groups m 1) \<and> truthy (m_groups m 2) \<and> m_groups m 3 \<noteq> None then
        Some \<lparr>entry_text = decodeXmlEntities (the (m_groups m 3)),
              entry_duration = Number_multiply (parseFloat (the (m_groups m 2))) (Fin 1000),
              entry_offset = Number_multiply (parseFloat (the (m_groups m 1))) (Fin 1000),
              entry_lang = Some lang\<rparr>
      else None)"

definition parseTranscriptXml :: "jsstring \<Rightarrow> jsstring \<Rightarrow> thrown + TranscriptEntry list" where
  "parseTranscriptXml xml lang =
     (let entries = List.map_filter (entry_of lang) (matchAll RE_XML_TRANSCRIPT xml)
      in if length entries = 0 then Inl NoEntriesFound else Inr entries)"

section \<open>The formatter\<close>

record FormatOptions =
  includeTimestamps :: bool
  sectionHeading :: jsstring

definition formatTimestamp :: "number \<Rightarrow> jsstring" where
  "formatTimestamp ms =
     (let totalSeconds = Math_floor (Number_divide ms (Fin 1000));
          hours = Math_floor (Number_divide totalSeconds (Fin 3600));
          minutes = Math_floor (Number_divide (Number_remainder totalSeconds (Fin 3600)) (Fin 60));
          seconds = Number_remainder totalSeconds (Fin 60);
          pad = (\<lambda>n. padStart 2 0x30 (toString n))
      in if Number_lessThan (Fin 0) hours = Some True
         then toString hours @ js '':'' @ pad minutes @ js '':'' @ pad seconds
         else toString minutes @ js '':'' @ pad seconds)"

definition formatTranscript ::
  "TranscriptEntry list \<Rightarrow> 'a FormatOptions_scheme \<Rightarrow> jsstring" where
  "formatTranscript entries options =
     (if includeTimestamps options then
        (let lines = map (\<lambda>entry. js ''['' @ formatTimestamp (entry_offset entry) @ js ''] ''
                                    @ entry_text entry) entries
         in js ''\<newline>'' @ sectionHeading options @ js ''\<newline>\<newline>''
            @ join (js ''\<newline>'') lines)
      else
        (let paragraph = join (js '' '') (map entry_text entries)
         in js ''\<newline>'' @ sectionHeading options @ js ''\<newline>\<newline>'' @ paragraph))"

definition hasTranscriptSection :: "jsstring \<Rightarrow> jsstring \<Rightarrow> bool" where
  "hasTranscriptSection content heading = includes_str content heading"

section \<open>Track selection\<close>

record CaptionTrack =
  baseUrl :: "jsstring option"
  trackUrl :: "jsstring option"
  languageCode :: jsstring

text \<open>
  \<open>lang.split("-")[0] ?? lang\<close>, then the three attempts of \<open>selectTrack\<close>; the
  function throws when all three leave \<open>track\<close> undefined.
\<close>

definition baseLang :: "jsstring \<Rightarrow> jsstring" where
  "baseLang lang = (case split 0x2D lang of [] \<Rightarrow> lang | b # _ \<Rightarrow> b)"

definition selectTrack :: "CaptionTrack list \<Rightarrow> jsstring \<Rightarrow> thrown + CaptionTrack" where
  "selectTrack tracks lang =
     (let track1 = find (\<lambda>t. languageCode t = lang) tracks;
          track2 = (case track1 of
                      None \<Rightarrow> find (\<lambda>t. startsWith (languageCode t) (baseLang lang)) tracks
                    | Some t \<Rightarrow> Some t);
          track3 = (case track2 of
                      None \<Rightarrow> (case tracks of [] \<Rightarrow> None | t # _ \<Rightarrow> Some t)
                    | Some t \<Rightarrow> Some t)
      in case track3 of
           None \<Rightarrow> Inl (Error (js ''No suitable caption track found.''))
         | Some t \<Rightarrow> Inr t)"

section \<open>The command\<close>

text \<open>
  \<open>fetchTranscriptForCurrentNote\<close>. The host and the network are its parameters: the
  text of the active file (\<open>None\<close> when there is no active Markdown file) and
  \<open>fetchTranscript\<close>, which answers with the entries or with what it throws. The result
  is the text of the file when the command has ended, and the notices it has shown.
\<close>

record YouTubeTranscriptSettings = FormatOptions +
  language :: jsstring

definition DEFAULT_SETTINGS :: YouTubeTranscriptSettings where
  "DEFAULT_SETTINGS =
     \<lparr>includeTimestamps = False, sectionHeading = js ''## Transcript'', language = js ''en''\<rparr>"

definition fetchTranscriptForCurrentNote ::
  "YouTubeTranscriptSettings \<Rightarrow> (jsstring \<Rightarrow> jsstring \<Rightarrow> thrown + TranscriptEntry list)
     \<Rightarrow> jsstring option \<Rightarrow> jsstring option \<times> jsstring list" where
  "fetchTranscriptForCurrentNote settings fetchTranscript file =
     (case file of
        None \<Rightarrow> (None, [js ''No active Markdown file''])
      | Some content \<Rightarrow>
          if hasTranscriptSection content (sectionHeading settings) then
            (Some content, [js ''This note already has a transcript section''])
          else
            let urls = findYouTubeUrls content;
                firstUrl = (case urls of [] \<Rightarrow> None | u # _ \<Rightarrow> Some u)
            in if \<not> truthy firstUrl then
                 (Some content, [js ''No YouTube URL found in this note''])
               else
                 let videoId = extractVideoId (the firstUrl)
                 in if \<not> truthy videoId then
                      (Some content, [js ''Could not extract video ID from URL''])
                    else
                      (case fetchTranscript (the videoId)
                              (if language settings = [] then js ''en'' else language settings) of
                         Inl error \<Rightarrow>
                           (Some content,
                            [js ''Fetching transcript...'',
                             js ''Failed to fetch transcript: ''
                               @ (case error of Error message \<Rightarrow> message
                                  | NotAnError \<Rightarrow> js ''Unknown error'')])
                       | Inr transcript \<Rightarrow>
                           if length transcript = 0 then
                             (Some content,
                              [js ''Fetching transcript...'', js ''No transcript entries found''])
                           else
                             let formatted = formatTranscript transcript
                                   \<lparr>includeTimestamps = includeTimestamps settings,
                                    sectionHeading = sectionHeading settings\<rparr>
                             in (Some (content @ js ''\<newline>'' @ formatted),
                                 [js ''Fetching transcript...'',
                                  js ''Transcript added ('' @ toString (Fin (of_nat (length transcript)))
                                    @ js '' entries)''])))"

section \<open>Notions of the specification and example data\<close>

text \<open>
  \<open>first_with P xs t\<close>: the element \<open>t\<close> is the first one of the list \<open>xs\<close> that
  satisfies \<open>P\<close>.
\<close>

definition first_with :: "('a \<Rightarrow> bool) \<Rightarrow> 'a list \<Rightarrow> 'a \<Rightarrow> bool" where
  "first_with P xs t = (\<exists>i<length xs. xs ! i = t \<and> P t \<and> (\<forall>j<i. \<not> P (xs ! j)))"

text \<open>
  The language the command asks for (\<open>settings.language || "en"\<close>) and the options it
  hands to the formatter.
\<close>

definition preferred :: "YouTubeTranscriptSettings \<Rightarrow> jsstring" where
  "preferred settings = (if language settings = [] then js ''en'' else language settings)"

definition options_of :: "YouTubeTranscriptSettings \<Rightarrow> FormatOptions" where
  "options_of settings =
     \<lparr>includeTimestamps = includeTimestamps settings, sectionHeading = sectionHeading settings\<rparr>"

text \<open>The two entries of the end-to-end scenario, and a caption track of a given language.\<close>

definition scenario_entries :: "TranscriptEntry list" where
  "scenario_entries =
     [\<lparr>entry_text = js ''We're no strangers'', entry_duration = Fin 2000, entry_offset = Fin 0,
       entry_lang = Some (js ''en'')\<rparr>,
      \<lparr>entry_text = js ''to love'', entry_duration = Fin 1000, entry_offset = Fin 2000,
       entry_lang = Some (js ''en'')\<rparr>]"

definition track :: "string \<Rightarrow> CaptionTrack" where
  "track l = \<lparr>baseUrl = Some (js ''https://www.youtube.com/api/timedtext''), trackUrl = None,
              languageCode = js l\<rparr>"

text \<open>
  A valid token is eleven code units of \<open>[A-Za-z0-9_-]\<close>. \<open>token_after p url pre tok\<close>:
  in \<open>url\<close>, right after the text \<open>pre\<close>, stands the literal \<open>p\<close> and then the valid
  token \<open>tok\<close>. \<open>first_token p url tok\<close>: \<open>tok\<close> is the token of the leftmost such place.
\<close>

definition valid_token :: "jsstring \<Rightarrow> bool" where
  "valid_token tok = (length tok = 11 \<and> list_all is_id_char tok)"

definition token_after :: "string \<Rightarrow> jsstring \<Rightarrow> jsstring \<Rightarrow> jsstring \<Rightarrow> bool" where
  "token_after p url pre tok = (\<exists>rest. url = pre @ js p @ tok @ rest \<and> valid_token tok)"

definition has_token :: "string \<Rightarrow> jsstring \<Rightarrow> bool" where
  "has_token p url = (\<exists>pre tok. token_after p url pre tok)"

definition first_token :: "string \<Rightarrow> jsstring \<Rightarrow> jsstring \<Rightarrow> bool" where
  "first_token p url tok =
     (\<exists>pre. token_after p url pre tok \<and>
        (\<forall>pre' tok'. token_after p url pre' tok' \<longrightarrow> length pre \<le> length pre'))"

text \<open>
  The host of a URL, read off its text: what stands between \<open>://\<close> and the next
  \<open>/\<close>, \<open>?\<close> or \<open>#\<close>. A host of the platform is \<open>youtube.com\<close>, \<open>youtu.be\<close>
  or a subdomain of one of them; any other host is foreign.
\<close>

fun after_scheme :: "jsstring \<Rightarrow> jsstring" where
  "after_scheme (a # b # c # xs) = (if [a, b, c] = js ''://'' then xs else after_scheme (b # c # xs))"
| "after_scheme xs = []"

definition url_host :: "jsstring \<Rightarrow> jsstring" where
  "url_host url = takeWhile (\<lambda>c. c \<notin> set (js ''/?#'')) (after_scheme url)"

definition platform_host :: "jsstring \<Rightarrow> bool" where
  "platform_host h = (h = js ''youtube.com'' \<or> h = js ''youtu.be''
     \<or> suffix (js ''.youtube.com'') h \<or> suffix (js ''.youtu.be'') h)"

text \<open>
  The text of a caption element with given start, duration and inner text. A document is
  a sequence of elements, each after a gap, and a tail; it is well-formed when no
  gap and not the tail contains the opening \<open><text start=\<close> of an element, no attribute
  contains a double quote and no inner text a \<open><\<close>. An element has times when both its
  attributes are non-empty; \<open>item_entry\<close> is the entry the specification gives for an
  element.
\<close>

definition element :: "jsstring \<Rightarrow> jsstring \<Rightarrow> jsstring \<Rightarrow> jsstring" where
  "element s d t =
     js ''<text start='' @ [0x22] @ s @ [0x22] @ js '' dur='' @ [0x22] @ d @ [0x22, 0x3E] @ t
       @ js ''</text>''"

type_synonym xml_item = "jsstring \<times> jsstring \<times> jsstring \<times> jsstring"

fun document :: "xml_item list \<Rightarrow> jsstring \<Rightarrow> jsstring" where
  "document [] tail = tail"
| "document ((g, s, d, t) # items) tail = g @ element s d t @ document items tail"

definition plain :: "jsstring \<Rightarrow> bool" where
  "plain g = (\<not> sublist (js ''<text start='') g)"

definition well_formed :: "xml_item list \<Rightarrow> jsstring \<Rightarrow> bool" where
  "well_formed items tail =
     ((\<forall>(g, s, d, t)\<in>set items. plain g \<and> 0x22 \<notin> set s \<and> 0x22 \<notin> set d \<and> 0x3C \<notin> set t)
      \<and> plain tail)"

definition has_times :: "xml_item \<Rightarrow> bool" where
  "has_times item = (case item of (g, s, d, t) \<Rightarrow> s \<noteq> [] \<and> d \<noteq> [])"

definition item_entry :: "jsstring \<Rightarrow> xml_item \<Rightarrow> TranscriptEntry" where
  "item_entry lang item =
     (case item of (g, s, d, t) \<Rightarrow>
        \<lparr>entry_text = decodeXmlEntities t,
         entry_duration = Number_multiply (parseFloat d) (Fin 1000),
         entry_offset = Number_multiply (parseFloat s) (Fin 1000), entry_lang = Some lang\<rparr>)"

text \<open>
  A match of the element pattern that is the text of an element at its place in the
  input, with the attributes and the inner text as its groups.
\<close>

definition element_match :: "jsstring \<Rightarrow> rmatch \<Rightarrow> bool" where
  "element_match xml m =
     (\<exists>s d t. 0x22 \<notin> set s \<and> 0x22 \<notin> set d \<and> 0x3C \<notin> set t
        \<and> m_text m = element s d t
        \<and> m_groups m 1 = Some s \<and> m_groups m 2 = Some d \<and> m_groups m 3 = Some t
        \<and> m_end m = m_index m + length (element s d t)
        \<and> take (length (element s d t)) (drop (m_index m) xml) = element s d t)"

text \<open>Example documents.\<close>

definition example_items :: "xml_item list" where
  "example_items =
     [(js ''<transcript>'', js ''0'', js ''1.5'', js ''Hi''),
      ([], js ''1.5'', js ''2'', js ''Let&amp;#39;s go'')]"

definition example_tail :: jsstring where
  "example_tail = js ''</transcript>''"

definition empty_start :: jsstring where
  \<open>empty_start = js ''<text start="" dur="1">x</text>''\<close>

definition two_elements :: jsstring where
  \<open>two_elements = js ''<text start="" dur="2">a</text><text start="3" dur="4">b</text>''\<close>

text \<open>
  A URL without its trailing punctuation: the longest prefix that does not end in one of
  \<open>)\<close>, \<open>,\<close>, \<open>.\<close>, \<open>]\<close> and \<open>>\<close>. The candidates of a document are the URLs
  captured in it, in the order of discovery: the \<open>source\<close> field of the front matter, the
  markdown links and embeds, the bare URLs.
\<close>

definition trimmed :: "jsstring \<Rightarrow> jsstring" where
  "trimmed s = rev (dropWhile (one_of ''),.]>'') (rev s))"

definition captured :: "rmatch list \<Rightarrow> jsstring option list" where
  "captured ms = map (\<lambda>m. m_groups m 1) ms"

definition candidates :: "jsstring \<Rightarrow> jsstring list" where
  "candidates content =
     concat (map (\<lambda>u. case u of None \<Rightarrow> [] | Some url \<Rightarrow> [url])
       ((case group1 (match FRONTMATTER content) of
           None \<Rightarrow> []
         | Some fm \<Rightarrow> if fm \<noteq> [] then [group1 (match SOURCE fm)] else [])
        @ captured (matchAll MARKDOWN content) @ captured (matchAll PLAIN content)))"







section \<open>Auxiliary notions of the proofs\<close>

text \<open>The groups that have taken part in every match of a pattern.\<close>

fun sure_groups :: "re \<Rightarrow> nat set" where
  "sure_groups (Seq r1 r2) = sure_groups r1 \<union> sure_groups r2"
| "sure_groups (Alt r1 r2) = sure_groups r1 \<inter> sure_groups r2"
| "sure_groups (Grp k r) = insert k (sure_groups r)"
| "sure_groups r = {}"

text \<open>A pattern without \<open>^\<close> matches the same way wherever the input stands.\<close>

fun bol_free :: "re \<Rightarrow> bool" where
  "bol_free Bol = False"
| "bol_free (Seq r1 r2) = (bol_free r1 \<and> bol_free r2)"
| "bol_free (Alt r1 r2) = (bol_free r1 \<and> bol_free r2)"
| "bol_free (Opt r) = bol_free r"
| "bol_free (Grp k r) = bol_free r"
| "bol_free r = True"

definition shift_state :: "nat \<Rightarrow> mstate \<Rightarrow> mstate" where
  "shift_state k st = (case st of (j, s, c) \<Rightarrow> (j + k, s, c))"

definition shift_match :: "nat \<Rightarrow> rmatch \<Rightarrow> rmatch" where
  "shift_match k m = m\<lparr>m_index := m_index m + k, m_end := m_end m + k\<rparr>"

text \<open>
  The replacement, read from the place the scan has reached: \<open>replace_from r f i s\<close>
  is the output for the input \<open>s\<close> that begins at index \<open>i\<close>.
\<close>

fun rel_splice :: "(rmatch \<Rightarrow> jsstring) \<Rightarrow> nat \<Rightarrow> jsstring \<Rightarrow> rmatch list \<Rightarrow> jsstring" where
  "rel_splice f i s [] = s"
| "rel_splice f i s (m # ms) =
     take (m_index m - i) s @ f m @ rel_splice f (m_end m) (drop (m_end m - i) s) ms"

fun ordered :: "nat \<Rightarrow> rmatch list \<Rightarrow> bool" where
  "ordered i [] = True"
| "ordered i (m # ms) = (i \<le> m_index m \<and> m_index m \<le> m_end m \<and> ordered (m_end m) ms)"

definition replace_from :: "re \<Rightarrow> (rmatch \<Rightarrow> jsstring) \<Rightarrow> nat \<Rightarrow> jsstring \<Rightarrow> jsstring" where
  "replace_from r f i s = rel_splice f i s (matchAll_from r i s)"

text \<open>The text that is left when the leftmost suffix made of units of a class is cut off.\<close>

fun strip :: "(cu \<Rightarrow> bool) \<Rightarrow> jsstring \<Rightarrow> jsstring" where
  "strip C [] = []"
| "strip C (x # xs) = (if list_all C (x # xs) then [] else x # strip C xs)"

text \<open>
  A pattern that cannot read a given code unit and does not ask for the end of the input
  matches the same way whether or not that code unit and more input follow.
\<close>

fun avoids :: "cu \<Rightarrow> re \<Rightarrow> bool" where
  "avoids q (Lit a) = (a \<noteq> q)"
| "avoids q (Cls C) = (\<not> C q)"
| "avoids q (Star C) = (\<not> C q)"
| "avoids q (LazyStar C) = (\<not> C q)"
| "avoids q (Seq r1 r2) = (avoids q r1 \<and> avoids q r2)"
| "avoids q (Alt r1 r2) = (avoids q r1 \<and> avoids q r2)"
| "avoids q (Opt r) = avoids q r"
| "avoids q (Grp k r) = avoids q r"
| "avoids q Eol = False"
| "avoids q r = True"

definition extend :: "jsstring \<Rightarrow> mstate \<Rightarrow> mstate" where
  "extend w st = (case st of (j, s, c) \<Rightarrow> (j, s @ w, c))"

text \<open>The entity pattern after its ampersand.\<close>

definition ENTITY_tail :: re where
  "ENTITY_tail =
     Seq (Alt (Seq (Lit 0x23) (Grp 1 (Plus is_digit)))
              (Alt (Seq (Str (js ''#x'')) (Grp 2 (Plus is_hex)))
                   (Grp 3 (Plus is_word))))
         (Seq (Lit 0x3B) Eps)"

section \<open>Facts about the matcher\<close>

lemma length_js [simp]: "length (js p) = length p"
  by (simp add: js_def)

lemma run_Str:
  "run (Str p) (i, s, c) = (if prefix p s then [(i + length p, drop (length p) s, c)] else [])"
proof (induction p arbitrary: i s)
  case Nil
  then show ?case by simp
next
  case (Cons a p)
  then show ?case by (cases s) auto
qed

lemma run_Rep:
  "run (Rep n C) (i, s, c) =
     (if n \<le> length s \<and> list_all C (take n s) then [(i + n, drop n s, c)] else [])"
proof (induction n arbitrary: i s)
  case 0
  then show ?case by simp
next
  case (Suc n)
  then show ?case by (cases s) auto
qed

lemma search_from_None:
  "(search_from r i s = None) = (\<forall>k<Suc (length s). exec_at r (i + k) (drop k s) = None)"
proof (induction s arbitrary: i)
  case Nil
  then show ?case by simp
next
  case (Cons x xs)
  show ?case
    by (subst All_less_Suc2) (simp add: Cons.IH split: option.splits)
qed

lemma search_from_Some:
  "(search_from r i s = Some m) =
     (\<exists>k<Suc (length s). exec_at r (i + k) (drop k s) = Some m \<and>
        (\<forall>k'<k. exec_at r (i + k') (drop k' s) = None))"
proof (induction s arbitrary: i)
  case Nil
  then show ?case by simp
next
  case (Cons x xs)
  show ?case
  proof (cases "exec_at r i (x # xs)")
    case None
    then show ?thesis
      apply (subst Ex_less_Suc2)
      apply (simp add: Cons.IH All_less_Suc2)
      done
  next
    case (Some m')
    then show ?thesis
      apply (subst Ex_less_Suc2)
      apply (auto simp add: All_less_Suc2)
      done
  qed
qed

text \<open>Where a match can end: further on in the same input.\<close>

lemma greedy_bounds:
  "(j, s', c') \<in> set (greedy C i s c) \<Longrightarrow> i \<le> j \<and> j - i \<le> length s \<and> s' = drop (j - i) s \<and> c' = c"
proof (induction s arbitrary: i)
  case Nil
  then show ?case by simp
next
  case (Cons x xs)
  show ?case
  proof (cases "(j, s', c') = (i, x # xs, c)")
    case True
    then show ?thesis by simp
  next
    case False
    with Cons.prems have "(j, s', c') \<in> set (greedy C (Suc i) xs c)"
      by (auto split: if_splits)
    from Cons.IH[OF this] have "Suc i \<le> j" "j - Suc i \<le> length xs" "s' = drop (j - Suc i) xs" "c' = c"
      by auto
    moreover from \<open>Suc i \<le> j\<close> have "j - i = Suc (j - Suc i)" by simp
    ultimately show ?thesis by simp
  qed
qed

lemma lazy_bounds:
  "(j, s', c') \<in> set (lazy C i s c) \<Longrightarrow> i \<le> j \<and> j - i \<le> length s \<and> s' = drop (j - i) s \<and> c' = c"
proof (induction s arbitrary: i)
  case Nil
  then show ?case by simp
next
  case (Cons x xs)
  show ?case
  proof (cases "(j, s', c') = (i, x # xs, c)")
    case True
    then show ?thesis by simp
  next
    case False
    with Cons.prems have "(j, s', c') \<in> set (lazy C (Suc i) xs c)"
      by (auto split: if_splits)
    from Cons.IH[OF this] have "Suc i \<le> j" "j - Suc i \<le> length xs" "s' = drop (j - Suc i) xs" "c' = c"
      by auto
    moreover from \<open>Suc i \<le> j\<close> have "j - i = Suc (j - Suc i)" by simp
    ultimately show ?thesis by simp
  qed
qed

lemma run_bounds:
  "(j, s', c') \<in> set (run r (i, s, c)) \<Longrightarrow> i \<le> j \<and> j - i \<le> length s \<and> s' = drop (j - i) s"
proof (induction r arbitrary: i s c j s' c')
  case Eps
  then show ?case by simp
next
  case (Lit a)
  then show ?case by (cases s) (auto split: if_splits)
next
  case (Cls C)
  then show ?case by (cases s) (auto split: if_splits)
next
  case (Seq r1 r2)
  from Seq.prems obtain k t d where m: "(k, t, d) \<in> set (run r1 (i, s, c))"
    and n: "(j, s', c') \<in> set (run r2 (k, t, d))"
    by auto
  from Seq.IH(1)[OF m] have a: "i \<le> k" "k - i \<le> length s" "t = drop (k - i) s" by auto
  from Seq.IH(2)[OF n] have b: "k \<le> j" "j - k \<le> length t" "s' = drop (j - k) t" by auto
  show ?case using a b by auto
next
  case (Alt r1 r2)
  then show ?case by auto
next
  case (Opt r)
  then show ?case by auto
next
  case (Star C)
  then show ?case using greedy_bounds by fastforce
next
  case (LazyStar C)
  then show ?case using lazy_bounds by fastforce
next
  case (Grp k r)
  then show ?case by auto
next
  case Bol
  then show ?case by (auto split: if_splits)
next
  case Eol
  then show ?case by (auto split: if_splits)
qed

lemma exec_at_bounds:
  assumes "exec_at r i s = Some m"
  shows "m_index m = i \<and> i \<le> m_end m \<and> m_end m - i \<le> length s"
proof -
  from assms obtain j s' c' rest where r: "run r (i, s, Map.empty) = (j, s', c') # rest"
    and m: "m = \<lparr>m_index = i, m_end = j, m_text = take (j - i) s, m_groups = c'\<rparr>"
    by (auto simp: exec_at_def split: list.splits)
  have "(j, s', c') \<in> set (run r (i, s, Map.empty))" using r by simp
  from run_bounds[OF this] show ?thesis using m by simp
qed

text \<open>A greedy star before something that cannot begin with a unit of the class.\<close>

lemma greedy_cont:
  assumes "\<forall>x\<in>set ds. C x" and "rest = [] \<or> \<not> C (hd rest)"
    and "\<And>j x xs. C x \<Longrightarrow> f (j, x # xs, c) = []"
  shows "concat (map f (greedy C i (ds @ rest) c)) = f (i + length ds, rest, c)"
  using assms(1)
proof (induction ds arbitrary: i)
  case Nil
  then show ?case using assms(2) by (cases rest) auto
next
  case (Cons y ys)
  then show ?case using assms(3) by simp
qed

lemma run_grp_star_cont:
  assumes "\<forall>x\<in>set ds. C x" and "rest = [] \<or> \<not> C (hd rest)"
    and "\<And>j x xs c'. C x \<Longrightarrow> run r (j, x # xs, c') = []"
  shows "run (Seq (Grp k (Star C)) r) (i, ds @ rest, c) = run r (i + length ds, rest, c(k \<mapsto> ds))"
proof -
  let ?f = "\<lambda>st. run r (case st of (j, s', c') \<Rightarrow> (j, s', c'(k \<mapsto> take (j - i) (ds @ rest))))"
  have "run (Seq (Grp k (Star C)) r) (i, ds @ rest, c) = concat (map ?f (greedy C i (ds @ rest) c))"
    by (simp add: map_concat comp_def case_prod_unfold)
  also have "\<dots> = ?f (i + length ds, rest, c)"
    using assms(1,2) by (rule greedy_cont[where f="?f"]) (simp add: assms(3))
  finally show ?thesis by simp
qed

lemma run_grp_plus_cont:
  assumes "\<forall>x\<in>set ds. C x" and "ds \<noteq> []" and "rest = [] \<or> \<not> C (hd rest)"
    and "\<And>j x xs c'. C x \<Longrightarrow> run r (j, x # xs, c') = []"
  shows "run (Seq (Grp k (Plus C)) r) (i, ds @ rest, c) = run r (i + length ds, rest, c(k \<mapsto> ds))"
proof -
  from assms(2) obtain y ys where ds: "ds = y # ys" by (cases ds) auto
  let ?f = "\<lambda>st. run r (case st of (j, s', c') \<Rightarrow> (j, s', c'(k \<mapsto> take (j - i) (ds @ rest))))"
  have "run (Seq (Grp k (Plus C)) r) (i, ds @ rest, c)
          = concat (map ?f (greedy C (Suc i) (ys @ rest) c))"
    using assms(1) by (simp add: ds Plus_def map_concat comp_def case_prod_unfold)
  also have "\<dots> = ?f (Suc i + length ys, rest, c)"
  proof (rule greedy_cont[where f="?f"])
    show "\<forall>x\<in>set ys. C x" using assms(1) ds by simp
    show "rest = [] \<or> \<not> C (hd rest)" by (rule assms(3))
    show "\<And>j x xs. C x \<Longrightarrow> ?f (j, x # xs, c) = []" by (simp add: assms(4))
  qed
  finally show ?thesis by (simp add: ds)
qed

lemma run_grp_plus_fail:
  assumes "s = [] \<or> \<not> C (hd s)"
  shows "run (Seq (Grp k (Plus C)) r) (i, s, c) = []"
  using assms by (cases s) (auto simp: Plus_def)

lemma run_Seq_Str: "run (Seq (Str p) r) (i, p @ rest, c) = run r (i + length p, rest, c)"
  by (simp add: run_Str)

lemma run_Seq_Lit: "run (Seq (Lit a) r) (i, a # rest, c) = run r (Suc i, rest, c)"
  by simp

lemma run_until:
  assumes "q \<notin> set ds"
  shows "run (Seq (Grp k (Star (\<lambda>c. c \<noteq> q))) (Seq (Lit q) r)) (i, ds @ q # rest, c)
           = run r (Suc (i + length ds), rest, c(k \<mapsto> ds))"
proof -
  have "run (Seq (Grp k (Star (\<lambda>c. c \<noteq> q))) (Seq (Lit q) r)) (i, ds @ q # rest, c)
          = run (Seq (Lit q) r) (i + length ds, q # rest, c(k \<mapsto> ds))"
  proof (rule run_grp_star_cont)
    show "\<forall>x\<in>set ds. x \<noteq> q" using assms by auto
    show "q # rest = [] \<or> \<not> hd (q # rest) \<noteq> q" by simp
    show "\<And>j x xs c'. x \<noteq> q \<Longrightarrow> run (Seq (Lit q) r) (j, x # xs, c') = []" by simp
  qed
  then show ?thesis by (simp only: run_Seq_Lit)
qed

lemma exec_at_no_prefix: "\<not> prefix p s \<Longrightarrow> exec_at (Seq (Str p) r) i s = None"
  by (simp add: exec_at_def run_Str)

text \<open>Unfolding the scan one step.\<close>

lemma matchAll_from_skip:
  "exec_at r i (x # xs) = None \<Longrightarrow> matchAll_from r i (x # xs) = matchAll_from r (Suc i) xs"
  by (subst matchAll_from.simps) simp

lemma matchAll_from_end: "exec_at r i [] = None \<Longrightarrow> matchAll_from r i [] = []"
  by (subst matchAll_from.simps) simp

lemma matchAll_from_hit:
  assumes "exec_at r i s = Some m" and "m_end m = i + n" and "0 < n" and "s \<noteq> []"
  shows "matchAll_from r i s = m # matchAll_from r (i + n) (drop n s)"
proof -
  have "max 1 (m_end m - i) = n" using assms(2,3) by simp
  then show ?thesis using assms(1,4) by (subst matchAll_from.simps) simp
qed

lemma matchAll_from_exec:
  "m \<in> set (matchAll_from r i s) \<Longrightarrow> \<exists>k s'. exec_at r k s' = Some m"
proof (induction r i s rule: matchAll_from.induct)
  case (1 r i s)
  show ?case
  proof (cases "exec_at r i s")
    case None
    with "1.prems" have "s \<noteq> []" and "m \<in> set (matchAll_from r (Suc i) (tl s))"
      by (subst (asm) matchAll_from.simps, simp split: if_splits)+
    with None "1.IH"(1) show ?thesis by blast
  next
    case (Some m')
    show ?thesis
    proof (cases "m = m'")
      case True
      with Some show ?thesis by blast
    next
      case False
      with Some "1.prems" have "s \<noteq> []"
        and "m \<in> set (matchAll_from r (i + max 1 (m_end m' - i)) (drop (max 1 (m_end m' - i)) s))"
        by (subst (asm) matchAll_from.simps, simp split: if_splits)+
      with Some "1.IH"(2) show ?thesis by blast
    qed
  qed
qed

lemma map_filter_Nil: "(List.map_filter g xs = []) = (\<forall>x\<in>set xs. g x = None)"
  by (induction xs) (auto simp: map_filter_simps split: option.splits)

lemma run_sure_groups:
  "(j, s', c') \<in> set (run r (i, s, c)) \<Longrightarrow> dom c \<union> sure_groups r \<subseteq> dom c'"
proof (induction r arbitrary: i s c j s' c')
  case (Lit a)
  then show ?case by (cases s) (auto split: if_splits)
next
  case (Cls C)
  then show ?case by (cases s) (auto split: if_splits)
next
  case (Seq r1 r2)
  from Seq.prems obtain k t d where m: "(k, t, d) \<in> set (run r1 (i, s, c))"
    and n: "(j, s', c') \<in> set (run r2 (k, t, d))"
    by auto
  from Seq.IH(1)[OF m] Seq.IH(2)[OF n] show ?case
    unfolding sure_groups.simps by blast
next
  case (Alt r1 r2)
  then show ?case by fastforce
next
  case (Opt r)
  then show ?case by fastforce
next
  case (Star C)
  then show ?case using greedy_bounds by fastforce
next
  case (LazyStar C)
  then show ?case using lazy_bounds by fastforce
next
  case (Grp k r)
  then show ?case by fastforce
qed (auto split: if_splits)

lemma exec_at_sure_groups:
  assumes "exec_at r i s = Some m"
  shows "sure_groups r \<subseteq> dom (m_groups m)"
proof -
  from assms obtain j s' c' rest where r: "run r (i, s, Map.empty) = (j, s', c') # rest"
    and m: "m = \<lparr>m_index = i, m_end = j, m_text = take (j - i) s, m_groups = c'\<rparr>"
    by (auto simp: exec_at_def split: list.splits)
  have "(j, s', c') \<in> set (run r (i, s, Map.empty))" using r by simp
  from run_sure_groups[OF this] show ?thesis using m by simp
qed

lemma sure_groups_Str: "sure_groups (Str p) = {}"
  by (induction p) simp_all

lemma greedy_shift: "greedy C (i + k) s c = map (shift_state k) (greedy C i s c)"
proof (induction s arbitrary: i)
  case Nil
  then show ?case by (simp add: shift_state_def)
next
  case (Cons x xs)
  then show ?case using Cons.IH[of "Suc i"] by (simp add: shift_state_def)
qed

lemma lazy_shift: "lazy C (i + k) s c = map (shift_state k) (lazy C i s c)"
proof (induction s arbitrary: i)
  case Nil
  then show ?case by (simp add: shift_state_def)
next
  case (Cons x xs)
  then show ?case using Cons.IH[of "Suc i"] by (simp add: shift_state_def)
qed

lemma run_shift:
  "bol_free r \<Longrightarrow> run r (i + k, s, c) = map (shift_state k) (run r (i, s, c))"
proof (induction r arbitrary: i s c)
  case (Lit a)
  then show ?case by (cases s) (simp_all add: shift_state_def)
next
  case (Cls C)
  then show ?case by (cases s) (simp_all add: shift_state_def)
next
  case (Seq r1 r2)
  have r2: "run r2 (shift_state k st) = map (shift_state k) (run r2 st)" for st
    using Seq.IH(2)[of "fst st" "fst (snd st)" "snd (snd st)"] Seq.prems
    by (simp add: shift_state_def case_prod_unfold)
  show ?case
    using Seq.IH(1)[of i s c] Seq.prems
    by (simp add: map_concat comp_def r2)
next
  case (Grp g r)
  have "(\<lambda>(j, s', c'). (j, s', c'(g \<mapsto> take (j - (i + k)) s))) \<circ> shift_state k
      = shift_state k \<circ> (\<lambda>(j, s', c'). (j, s', c'(g \<mapsto> take (j - i) s)))"
    by (auto simp: shift_state_def fun_eq_iff)
  then show ?case
    using Grp.IH[of i s c] Grp.prems by simp
qed (simp_all add: greedy_shift lazy_shift shift_state_def)

lemma exec_at_shift:
  "bol_free r \<Longrightarrow> exec_at r (i + k) s = map_option (shift_match k) (exec_at r i s)"
  by (auto simp: exec_at_def run_shift shift_state_def shift_match_def split: list.splits)

lemma matchAll_from_None:
  "exec_at r i s = None \<Longrightarrow>
     matchAll_from r i s = (if s = [] then [] else matchAll_from r (Suc i) (tl s))"
  by (subst matchAll_from.simps) simp

lemma matchAll_from_Some:
  "exec_at r i s = Some m \<Longrightarrow>
     matchAll_from r i s
       = m # (if s = [] then []
              else matchAll_from r (i + max 1 (m_end m - i)) (drop (max 1 (m_end m - i)) s))"
  by (subst matchAll_from.simps) simp

lemma matchAll_from_shift:
  "bol_free r \<Longrightarrow> matchAll_from r (i + k) s = map (shift_match k) (matchAll_from r i s)"
proof (induction r i s rule: matchAll_from.induct)
  case (1 r i s)
  show ?case
  proof (cases "exec_at r i s")
    case None
    then have n: "exec_at r (i + k) s = None" using "1.prems" by (simp add: exec_at_shift)
    show ?thesis
    proof (cases "s = []")
      case True
      show ?thesis
        unfolding matchAll_from_None[OF None] matchAll_from_None[OF n] using True by simp
    next
      case False
      show ?thesis
        unfolding matchAll_from_None[OF None] matchAll_from_None[OF n]
        using False "1.IH"(1)[OF None False "1.prems"] by simp
    qed
  next
    case (Some m)
    then have n: "exec_at r (i + k) s = Some (shift_match k m)"
      using "1.prems" by (simp add: exec_at_shift)
    have e: "m_end (shift_match k m) - (i + k) = m_end m - i" by (simp add: shift_match_def)
    show ?thesis
    proof (cases "s = []")
      case True
      show ?thesis
        unfolding matchAll_from_Some[OF Some] matchAll_from_Some[OF n] using True by simp
    next
      case False
      have "matchAll_from r (i + max 1 (m_end m - i) + k) (drop (max 1 (m_end m - i)) s)
          = map (shift_match k) (matchAll_from r (i + max 1 (m_end m - i)) (drop (max 1 (m_end m - i)) s))"
        using "1.IH"(2)[OF Some False "1.prems"] .
      moreover have "i + k + max 1 (m_end m - i) = i + max 1 (m_end m - i) + k" by simp
      ultimately show ?thesis using False
        by (simp only: matchAll_from_Some[OF Some] matchAll_from_Some[OF n] e if_False list.map)
    qed
  qed
qed

lemma bol_free_Str: "bol_free (Str p)"
  by (induction p) simp_all

lemma ordered_mono: "ordered a ms \<Longrightarrow> b \<le> a \<Longrightarrow> ordered b ms"
  by (cases ms) auto

lemma matchAll_ordered: "ordered i (matchAll_from r i s)"
proof (induction r i s rule: matchAll_from.induct)
  case (1 r i s)
  show ?case
  proof (cases "exec_at r i s")
    case None
    show ?thesis
      unfolding matchAll_from_None[OF None]
      using "1.IH"(1)[OF None] ordered_mono[of "Suc i" _ i] by auto
  next
    case (Some m)
    from exec_at_bounds[OF Some] have b: "m_index m = i" "i \<le> m_end m" by auto
    show ?thesis
      unfolding matchAll_from_Some[OF Some]
      using "1.IH"(2)[OF Some] b ordered_mono[of "i + max 1 (m_end m - i)" _ "m_end m"] by auto
  qed
qed

lemma splice_rel: "ordered pos ms \<Longrightarrow> splice f s pos ms = rel_splice f pos (drop pos s) ms"
proof (induction ms arbitrary: pos)
  case Nil
  then show ?case by simp
next
  case (Cons m ms)
  then have "pos \<le> m_end m" and o: "ordered (m_end m) ms" by auto
  then have "drop (m_end m - pos) (drop pos s) = drop (m_end m) s" by simp
  then show ?case using Cons.IH[OF o] by simp
qed

lemma replace_g_from: "replace_g r f s = replace_from r f 0 s"
  using splice_rel[OF matchAll_ordered, of f s 0 r s]
  by (simp add: replace_g_def replace_from_def matchAll_def)

lemma rel_splice_Cons:
  "ordered (Suc i) ms \<Longrightarrow> rel_splice f i (x # xs) ms = x # rel_splice f (Suc i) xs ms"
proof (cases ms)
  case Nil
  then show ?thesis by simp
next
  case (Cons m ms')
  assume "ordered (Suc i) ms"
  with Cons have a: "Suc i \<le> m_index m" "Suc i \<le> m_end m" by auto
  then obtain p q where p: "m_index m - i = Suc p" "m_index m - Suc i = p"
    and q: "m_end m - i = Suc q" "m_end m - Suc i = q"
    by (metis Suc_diff_le diff_Suc_Suc)
  show ?thesis by (simp add: Cons p q)
qed

lemma replace_from_skip:
  assumes "exec_at r i (x # xs) = None"
  shows "replace_from r f i (x # xs) = x # replace_from r f (Suc i) xs"
  unfolding replace_from_def matchAll_from_skip[OF assms]
  by (rule rel_splice_Cons) (rule matchAll_ordered)

lemma replace_from_end: "exec_at r i [] = None \<Longrightarrow> replace_from r f i [] = []"
  by (simp add: replace_from_def matchAll_from_end)

lemma replace_from_hit:
  assumes "exec_at r i s = Some m" and "m_end m = i + n" and "0 < n" and "s \<noteq> []"
  shows "replace_from r f i s = f m @ replace_from r f (i + n) (drop n s)"
proof -
  from exec_at_bounds[OF assms(1)] have "m_index m = i" by simp
  then show ?thesis
    unfolding replace_from_def matchAll_from_hit[OF assms] using assms(2) by simp
qed

lemma rel_splice_shift:
  assumes "\<And>m. f (shift_match k m) = f m"
  shows "rel_splice f (i + k) s (map (shift_match k) ms) = rel_splice f i s ms"
proof (induction ms arbitrary: i s)
  case Nil
  then show ?case by simp
next
  case (Cons m ms)
  have "rel_splice f (m_end m + k) (drop (m_end m - i) s) (map (shift_match k) ms)
          = rel_splice f (m_end m) (drop (m_end m - i) s) ms"
    by (rule Cons.IH)
  then show ?case by (simp add: assms shift_match_def[of k m, symmetric]) (simp add: shift_match_def)
qed

lemma replace_from_shift:
  assumes "bol_free r" and "\<And>m k. f (shift_match k m) = f m"
  shows "replace_from r f k s = replace_from r f 0 s"
  using matchAll_from_shift[OF assms(1), of 0 k s] rel_splice_shift[of f k 0 s, OF assms(2)]
  by (simp add: replace_from_def)

text \<open>Sequences associate, and distribute over alternatives.\<close>

lemma concat_map_concat: "concat (map f (concat xss)) = concat (map (\<lambda>xs. concat (map f xs)) xss)"
  by (induction xss) simp_all

lemma run_Seq_assoc: "run (Seq (Seq a b) c) st = run (Seq a (Seq b c)) st"
proof -
  have "run (Seq b c) = (\<lambda>x. concat (map (run c) (run b x)))"
    by (rule ext) simp
  then show ?thesis
    by (simp add: concat_map_concat comp_def)
qed

lemma run_Seq_Alt: "run (Seq (Alt a b) c) st = run (Seq a c) st @ run (Seq b c) st"
  by simp

section \<open>Facts about doubles\<close>

text \<open>Powers of two, the binary logarithm and the rounding of a multiplier.\<close>

lemma pow2_powi: "pow2 e = 2 powi e"
proof (cases "0 \<le> e")
  case True
  then show ?thesis by (simp add: pow2_def power_int_def)
next
  case False
  have "(1::rat) / 2 ^ nat (- e) = inverse 2 ^ nat (- e)"
    by (simp add: power_one_over inverse_eq_divide)
  then show ?thesis using False by (simp add: pow2_def power_int_def)
qed





lemma pow2_mono: "a \<le> b \<Longrightarrow> pow2 a \<le> pow2 b"
  by (simp add: pow2_powi power_int_increasing)

lemma pow2_strict_mono: "a < b \<Longrightarrow> pow2 a < pow2 b"
  by (simp add: pow2_powi power_int_strict_increasing)

lemma pow2_le_iff: "(pow2 a \<le> pow2 b) = (a \<le> b)"
  using pow2_mono[of a b] pow2_strict_mono[of b a] by (auto simp: not_le[symmetric])









lemma round_even_int: "round_even (of_int n) = n"
  by (simp add: round_even_def)











section \<open>Extracting the identifier\<close>

lemma exec_at_id_pattern:
  "exec_at (id_pattern p) i s =
     (if prefix (js p) s \<and> 11 \<le> length (drop (length p) s)
         \<and> list_all is_id_char (take 11 (drop (length p) s))
      then Some \<lparr>m_index = i, m_end = i + length p + 11, m_text = take (length p + 11) s,
                 m_groups = [1 \<mapsto> take 11 (drop (length p) s)]\<rparr>
      else None)"
  by (simp add: exec_at_def id_pattern_def run_Str run_Rep)

text \<open>An attempt at index \<open>k\<close> succeeds exactly when a token stands there.\<close>

lemma exec_at_token:
  assumes "k \<le> length url"
  shows "(\<exists>m. exec_at (id_pattern p) (i + k) (drop k url) = Some m \<and> m_groups m 1 = Some tok)
           = token_after p url (take k url) tok"
proof
  assume "\<exists>m. exec_at (id_pattern p) (i + k) (drop k url) = Some m \<and> m_groups m 1 = Some tok"
  then have pre: "prefix (js p) (drop k url)"
    and len: "11 \<le> length (drop (length p) (drop k url))"
    and all: "list_all is_id_char (take 11 (drop (length p) (drop k url)))"
    and tok: "tok = take 11 (drop (length p) (drop k url))"
    by (auto simp: exec_at_id_pattern split: if_splits)
  from pre obtain r where r: "drop k url = js p @ r"
    by (auto simp: prefix_def)
  have "url = take k url @ js p @ tok @ drop 11 r"
    using r tok by (metis append_take_drop_id append_eq_conv_conj length_js)
  moreover have "valid_token tok"
    using len all tok by (simp add: valid_token_def)
  ultimately show "token_after p url (take k url) tok"
    unfolding token_after_def by blast
next
  assume "token_after p url (take k url) tok"
  then obtain rest where u: "url = take k url @ js p @ tok @ rest" and v: "valid_token tok"
    unfolding token_after_def by blast
  have d: "drop k url = js p @ tok @ rest"
    using u assms by (metis append_eq_conv_conj length_take min.absorb2)
  show "\<exists>m. exec_at (id_pattern p) (i + k) (drop k url) = Some m \<and> m_groups m 1 = Some tok"
    using v by (simp add: exec_at_id_pattern d valid_token_def)
qed

lemma exec_at_id_groups:
  "exec_at (id_pattern p) i s = Some m \<Longrightarrow> \<exists>tok. m_groups m 1 = Some tok \<and> tok \<noteq> []"
  by (auto simp: exec_at_id_pattern split: if_splits)

lemma token_after_length:
  "token_after p url pre tok \<Longrightarrow> length pre \<le> length url \<and> take (length pre) url = pre"
  by (auto simp: token_after_def)

lemma match_id_None: "(match (id_pattern p) url = None) = (\<not> has_token p url)"
proof
  assume n: "match (id_pattern p) url = None"
  show "\<not> has_token p url"
  proof
    assume "has_token p url"
    then obtain pre tok where t: "token_after p url pre tok"
      unfolding has_token_def by blast
    then have l: "length pre \<le> length url" and p: "take (length pre) url = pre"
      using token_after_length by blast+
    from exec_at_token[OF l, of p 0 tok] t p
    obtain m where "exec_at (id_pattern p) (length pre) (drop (length pre) url) = Some m"
      by auto
    moreover have "exec_at (id_pattern p) (0 + length pre) (drop (length pre) url) = None"
      using n l unfolding match_def search_from_None by (meson le_imp_less_Suc)
    ultimately show False by simp
  qed
next
  assume h: "\<not> has_token p url"
  show "match (id_pattern p) url = None"
    unfolding match_def search_from_None
  proof (intro allI impI)
    fix k assume k: "k < Suc (length url)"
    show "exec_at (id_pattern p) (0 + k) (drop k url) = None"
    proof (cases "exec_at (id_pattern p) (0 + k) (drop k url)")
      case None
      then show ?thesis .
    next
      case (Some m)
      then obtain tok where "m_groups m 1 = Some tok"
        using exec_at_id_groups by blast
      then have "token_after p url (take k url) tok"
        using exec_at_token[of k url p 0 tok] Some k by auto
      then show ?thesis using h unfolding has_token_def by blast
    qed
  qed
qed

lemma match_id_Some:
  assumes "match (id_pattern p) url = Some m"
  shows "\<exists>tok. m_groups m 1 = Some tok \<and> tok \<noteq> [] \<and> first_token p url tok"
proof -
  from assms obtain k where k: "k < Suc (length url)"
    and e: "exec_at (id_pattern p) (0 + k) (drop k url) = Some m"
    and f: "\<forall>k'<k. exec_at (id_pattern p) (0 + k') (drop k' url) = None"
    unfolding match_def search_from_Some by blast
  from e obtain tok where g: "m_groups m 1 = Some tok" and ne: "tok \<noteq> []"
    using exec_at_id_groups by blast
  have t: "token_after p url (take k url) tok"
    using exec_at_token[of k url p 0 tok] e g k by auto
  have "length (take k url) \<le> length pre'" if t': "token_after p url pre' tok'" for pre' tok'
  proof (rule ccontr)
    assume "\<not> length (take k url) \<le> length pre'"
    then have lt: "length pre' < k" using k by simp
    have l: "length pre' \<le> length url" and p: "take (length pre') url = pre'"
      using token_after_length[OF t'] by blast+
    from exec_at_token[OF l, of p 0 tok'] t' p
    obtain m' where "exec_at (id_pattern p) (0 + length pre') (drop (length pre') url) = Some m'"
      by auto
    then show False using f lt by simp
  qed
  then have "first_token p url tok"
    unfolding first_token_def using t by blast
  then show ?thesis using g ne by blast
qed

lemma token_after_unique:
  assumes "token_after p url pre tok" and "token_after p url pre' tok'"
    and "length pre = length pre'"
  shows "tok = tok'"
proof -
  from assms obtain r r' where u: "url = pre @ js p @ tok @ r" and u': "url = pre' @ js p @ tok' @ r'"
    and v: "length tok = 11" "length tok' = 11"
    unfolding token_after_def valid_token_def by blast
  have "pre = pre'" using u u' assms(3) by (metis append_eq_append_conv)
  then have "tok @ r = tok' @ r'" using u u' by simp
  then show ?thesis using v by simp
qed

lemma first_token_unique:
  assumes "first_token p url tok" and "first_token p url tok'"
  shows "tok = tok'"
proof -
  from assms obtain pre pre' where t: "token_after p url pre tok" and t': "token_after p url pre' tok'"
    and m: "\<forall>a b. token_after p url a b \<longrightarrow> length pre \<le> length a"
    and m': "\<forall>a b. token_after p url a b \<longrightarrow> length pre' \<le> length a"
    unfolding first_token_def by blast
  have "length pre = length pre'"
    using m t' m' t by (meson le_antisym)
  then show ?thesis using token_after_unique[OF t t'] by simp
qed

lemma first_token_has: "first_token p url tok \<Longrightarrow> has_token p url"
  unfolding first_token_def has_token_def by blast

lemma first_id_None:
  "(first_id (map id_pattern ps) url = None) = (\<forall>p\<in>set ps. \<not> has_token p url)"
proof (induction ps)
  case Nil
  then show ?case by simp
next
  case (Cons p ps)
  show ?case
  proof (cases "match (id_pattern p) url")
    case None
    then show ?thesis using Cons.IH match_id_None[of p url] by simp
  next
    case (Some m)
    then have "has_token p url" using match_id_None[of p url] by simp
    moreover obtain tok where "m_groups m 1 = Some tok" "tok \<noteq> []"
      using match_id_Some[OF Some] by blast
    ultimately show ?thesis using Some by simp
  qed
qed

lemma first_id_Some:
  "(first_id (map id_pattern ps) url = Some tok) =
     (\<exists>k<length ps. (\<forall>j<k. \<not> has_token (ps ! j) url) \<and> first_token (ps ! k) url tok)"
proof (induction ps)
  case Nil
  then show ?case by simp
next
  case (Cons p ps)
  show ?case
  proof (cases "match (id_pattern p) url")
    case None
    then have n: "\<not> has_token p url" using match_id_None[of p url] by simp
    then have nf: "\<not> first_token p url tok" using first_token_has by blast
    have "first_id (map id_pattern (p # ps)) url = first_id (map id_pattern ps) url"
      using None by simp
    then show ?thesis
      using n nf Cons.IH by (simp add: Ex_less_Suc2 All_less_Suc2)
  next
    case (Some m)
    then obtain t where g: "m_groups m 1 = Some t" "t \<noteq> []" and f: "first_token p url t"
      using match_id_Some[OF Some] by blast
    have h: "has_token p url" using f first_token_has by blast
    have "first_id (map id_pattern (p # ps)) url = Some t"
      using Some g by simp
    moreover have "(\<exists>k<length (p # ps). (\<forall>j<k. \<not> has_token ((p # ps) ! j) url)
        \<and> first_token ((p # ps) ! k) url tok) = (tok = t)"
      using h f first_token_unique[of p url tok t]
      by (auto simp add: Ex_less_Suc2 All_less_Suc2)
    ultimately show ?thesis by auto
  qed
qed

lemma extractVideoId_examples:
  "extractVideoId (js ''https://www.youtube.com/watch?v=dQw4w9WgXcQ'') = Some (js ''dQw4w9WgXcQ'')"
  "extractVideoId (js ''https://youtu.be/dQw4w9WgXcQ'') = Some (js ''dQw4w9WgXcQ'')"
  "extractVideoId (js ''https://www.youtube.com/embed/dQw4w9WgXcQ'') = Some (js ''dQw4w9WgXcQ'')"
  "extractVideoId (js ''https://www.youtube.com/v/dQw4w9WgXcQ'') = Some (js ''dQw4w9WgXcQ'')"
  "extractVideoId (js ''https://www.youtube.com/shorts/dQw4w9WgXcQ'') = Some (js ''dQw4w9WgXcQ'')"
  "extractVideoId (js ''https://example.com/video'') = None"
  "extractVideoId [] = None"
  by code_simp+

text \<open>
  The supported shapes. A text without the letter \<open>y\<close> (a scheme and a host prefix such as
  \<open>https://www.\<close>, \<open>http://\<close> or \<open>https://m.\<close>), then one of the five literals, then a
  valid token: the result is that token.
\<close>

lemma no_match_in_token:
  assumes "list_all is_id_char tok" and "\<not> list_all is_id_char (js p)"
  shows "search_from (id_pattern p) i tok = None"
  unfolding search_from_None
proof (intro allI impI)
  fix k assume "k < Suc (length tok)"
  show "exec_at (id_pattern p) (i + k) (drop k tok) = None"
  proof (rule ccontr)
    assume "exec_at (id_pattern p) (i + k) (drop k tok) \<noteq> None"
    then have "prefix (js p) (drop k tok)"
      by (auto simp: exec_at_id_pattern split: if_splits)
    then have "set (js p) \<subseteq> set tok"
      using set_mono_prefix set_drop_subset by fastforce
    then show False using assms by (auto simp: list_all_iff)
  qed
qed

lemma search_from_id_Cons:
  "search_from (id_pattern p) i (c # s) =
     (if prefix (js p) (c # s) \<and> 11 \<le> length (drop (length p) (c # s))
         \<and> list_all is_id_char (take 11 (drop (length p) (c # s)))
      then Some \<lparr>m_index = i, m_end = i + length p + 11, m_text = take (length p + 11) (c # s),
                 m_groups = [1 \<mapsto> take 11 (drop (length p) (c # s))]\<rparr>
      else search_from (id_pattern p) (Suc i) s)"
  by (simp add: exec_at_id_pattern)

lemma not_id: 
  "\<not> list_all is_id_char (js ''youtube.com/watch?v='')"
  "\<not> list_all is_id_char (js ''youtu.be/'')"
  "\<not> list_all is_id_char (js ''youtube.com/embed/'')"
  "\<not> list_all is_id_char (js ''youtube.com/v/'')"
  "\<not> list_all is_id_char (js ''youtube.com/shorts/'')"
  by code_simp+

lemma skip_before_y:
  assumes "0x79 \<notin> set pre" and "\<exists>q. js p = 0x79 # q"
  shows "search_from (id_pattern p) i (pre @ s) = search_from (id_pattern p) (i + length pre) s"
  using assms(1)
proof (induction pre arbitrary: i)
  case Nil
  then show ?case by simp
next
  case (Cons c pre)
  from assms(2) obtain q where q: "js p = 0x79 # q" by blast
  from Cons.prems have "c \<noteq> 0x79" and r: "0x79 \<notin> set pre" by auto
  then have "\<not> prefix (js p) (c # pre @ s)" by (simp add: q)
  then have "search_from (id_pattern p) i ((c # pre) @ s) = search_from (id_pattern p) (Suc i) (pre @ s)"
    by (simp add: search_from_id_Cons del: search_from.simps)
  then show ?case using Cons.IH[OF r, of "Suc i"] by simp
qed

lemma starts_with_y:
  "\<exists>q. js ''youtube.com/watch?v='' = 0x79 # q"
  "\<exists>q. js ''youtu.be/'' = 0x79 # q"
  "\<exists>q. js ''youtube.com/embed/'' = 0x79 # q"
  "\<exists>q. js ''youtube.com/v/'' = 0x79 # q"
  "\<exists>q. js ''youtube.com/shorts/'' = 0x79 # q"
  by (simp_all add: js_def)

lemma supported_shapes:
  assumes "valid_token tok" and "0x79 \<notin> set pre"
  shows "\<forall>p\<in>set VIDEO_ID_PREFIXES. extractVideoId (pre @ js p @ tok) = Some tok"
proof -
  have t: "list_all is_id_char tok" "length tok = 11" "tok \<noteq> []"
    using assms by (auto simp: valid_token_def)
  note n = no_match_in_token[OF t(1) not_id(1)] no_match_in_token[OF t(1) not_id(2)]
    no_match_in_token[OF t(1) not_id(3)] no_match_in_token[OF t(1) not_id(4)]
    no_match_in_token[OF t(1) not_id(5)]
  note s = skip_before_y[OF assms(2) starts_with_y(1)] skip_before_y[OF assms(2) starts_with_y(2)]
    skip_before_y[OF assms(2) starts_with_y(3)] skip_before_y[OF assms(2) starts_with_y(4)]
    skip_before_y[OF assms(2) starts_with_y(5)]
  show ?thesis
    by (simp add: extractVideoId_def VIDEO_ID_PATTERNS_def VIDEO_ID_PREFIXES_def
          match_def s js_def search_from_id_Cons t n del: search_from.simps)
qed

text \<open>
  Claim C1, as the code has it. \<open>extractVideoId\<close> returns \<open>null\<close> exactly when none of
  the five literals is followed by a valid token anywhere in the URL. It returns a token
  exactly when that token follows the leftmost place of the first literal, in the order
  of \<open>VIDEO_ID_PATTERNS\<close>, that is followed by a valid token anywhere in the URL. In
  particular a URL of a supported shape, a text without the letter \<open>y\<close> followed by one of
  the five literals and a valid token, yields that token. The function is total: it never
  throws. The host of the URL plays no part in this.
\<close>

theorem extractVideoId_first_token:
  "(extractVideoId url = None) = (\<forall>p\<in>set VIDEO_ID_PREFIXES. \<not> has_token p url) \<and>
   (extractVideoId url = Some tok) =
     (\<exists>k<length VIDEO_ID_PREFIXES.
        (\<forall>j<k. \<not> has_token (VIDEO_ID_PREFIXES ! j) url) \<and>
        first_token (VIDEO_ID_PREFIXES ! k) url tok) \<and>
   (valid_token t \<and> 0x79 \<notin> set pre \<longrightarrow>
      (\<forall>p\<in>set VIDEO_ID_PREFIXES. extractVideoId (pre @ js p @ t) = Some t))"
proof (intro conjI)
  show "(extractVideoId url = None) = (\<forall>p\<in>set VIDEO_ID_PREFIXES. \<not> has_token p url)"
    unfolding extractVideoId_def VIDEO_ID_PATTERNS_def by (rule first_id_None)
  show "(extractVideoId url = Some tok) =
     (\<exists>k<length VIDEO_ID_PREFIXES.
        (\<forall>j<k. \<not> has_token (VIDEO_ID_PREFIXES ! j) url) \<and>
        first_token (VIDEO_ID_PREFIXES ! k) url tok)"
    unfolding extractVideoId_def VIDEO_ID_PATTERNS_def by (rule first_id_Some)
  show "valid_token t \<and> 0x79 \<notin> set pre \<longrightarrow>
      (\<forall>p\<in>set VIDEO_ID_PREFIXES. extractVideoId (pre @ js p @ t) = Some t)"
    using supported_shapes by blast
qed

theorem extractVideoId_first_token_witness:
  "extractVideoId (js ''https://www.youtube.com/shorts/dQw4w9WgXcQ'') = Some (js ''dQw4w9WgXcQ'') \<and>
   (\<exists>k<length VIDEO_ID_PREFIXES.
      (\<forall>j<k. \<not> has_token (VIDEO_ID_PREFIXES ! j) (js ''https://www.youtube.com/shorts/dQw4w9WgXcQ'')) \<and>
      first_token (VIDEO_ID_PREFIXES ! k) (js ''https://www.youtube.com/shorts/dQw4w9WgXcQ'')
        (js ''dQw4w9WgXcQ'')) \<and>
   valid_token (js ''dQw4w9WgXcQ'') \<and> 0x79 \<notin> set (js ''https://music.'') \<and>
   extractVideoId (js ''https://music.'' @ js ''youtube.com/watch?v='' @ js ''dQw4w9WgXcQ'') =
     Some (js ''dQw4w9WgXcQ'')"
proof -
  have v: "extractVideoId (js ''https://www.youtube.com/shorts/dQw4w9WgXcQ'') = Some (js ''dQw4w9WgXcQ'')"
    by code_simp
  have t: "valid_token (js ''dQw4w9WgXcQ'')"
    by code_simp
  have y: "0x79 \<notin> set (js ''https://music.'')"
    by code_simp
  have p: "''youtube.com/watch?v='' \<in> set VIDEO_ID_PREFIXES"
    by (simp add: VIDEO_ID_PREFIXES_def)
  show ?thesis
    using v t y p extractVideoId_first_token[of "js ''https://www.youtube.com/shorts/dQw4w9WgXcQ''"
        "js ''dQw4w9WgXcQ''" "js ''dQw4w9WgXcQ''" "js ''https://music.''"]
    by blast
qed

text \<open>
  Claim C1 says that a URL of a foreign domain yields \<open>null\<close>. The patterns are not
  anchored at the host, and the URL \<open>https://notyoutube.com/watch?v=dQw4w9WgXcQ\<close>, whose
  host is \<open>notyoutube.com\<close>, yields the token.
\<close>

theorem extractVideoId_foreign_domain:
  "\<not> (\<forall>url. \<not> platform_host (url_host url) \<longrightarrow> extractVideoId url = None)"
proof
  assume a: "\<forall>url. \<not> platform_host (url_host url) \<longrightarrow> extractVideoId url = None"
  have h: "url_host (js ''https://notyoutube.com/watch?v=dQw4w9WgXcQ'') = js ''notyoutube.com''"
    by code_simp
  have f: "\<not> platform_host (js ''notyoutube.com'')"
    by code_simp
  have v: "extractVideoId (js ''https://notyoutube.com/watch?v=dQw4w9WgXcQ'') = Some (js ''dQw4w9WgXcQ'')"
    by code_simp
  from a h f have "extractVideoId (js ''https://notyoutube.com/watch?v=dQw4w9WgXcQ'') = None"
    by simp
  with v show False by simp
qed

section \<open>Detecting the URLs\<close>

text \<open>The cases of the repository's unit tests.\<close>

lemma findYouTubeUrls_examples:
  "findYouTubeUrls (js ''---\<newline>source: https://www.youtube.com/watch?v=abc12345678\<newline>---\<newline>Some content'')
     = [js ''https://www.youtube.com/watch?v=abc12345678'']"
  "findYouTubeUrls (js ''Check out [this video](https://www.youtube.com/watch?v=abc12345678)'')
     = [js ''https://www.youtube.com/watch?v=abc12345678'']"
  "findYouTubeUrls (js ''Watch this: https://www.youtube.com/watch?v=abc12345678'')
     = [js ''https://www.youtube.com/watch?v=abc12345678'']"
  "findYouTubeUrls (js ''Short link: https://youtu.be/abc12345678'') = [js ''https://youtu.be/abc12345678'']"
  "findYouTubeUrls (js ''No videos here, just text.'') = []"
  by code_simp+

text \<open>
  \<open>/[),.\]>]+$/\<close>: a class repeated up to the end of the input. The leftmost match
  starts where the trailing run of the class starts, and replacing it by the empty text
  leaves the input without that run.
\<close>

lemma greedy_Eol:
  "concat (map (run Eol) (greedy C i s c)) = (if list_all C s then [(i + length s, [], c)] else [])"
proof (induction s arbitrary: i)
  case Nil
  then show ?case by simp
next
  case (Cons x xs)
  have "concat (map (run Eol) (greedy C i (x # xs) c)) =
      (if C x then concat (map (run Eol) (greedy C (Suc i) xs c)) else [])"
    by simp
  also have "\<dots> = (if C x then (if list_all C xs then [(Suc i + length xs, [], c)] else []) else [])"
    unfolding Cons.IH ..
  also have "\<dots> = (if list_all C (x # xs) then [(i + length (x # xs), [], c)] else [])"
    by simp
  finally show ?case .
qed

lemma run_Plus_Eol:
  "run (Seq (Plus C) Eol) (i, s, c) =
     (if s \<noteq> [] \<and> list_all C s then [(i + length s, [], c)] else [])"
proof (cases s)
  case Nil
  then show ?thesis by (simp add: Plus_def)
next
  case (Cons x xs)
  have "run (Seq (Plus C) Eol) (i, x # xs, c) =
      (if C x then concat (map (run Eol) (greedy C (Suc i) xs c)) else [])"
    by (simp add: Plus_def)
  then show ?thesis using Cons by (simp add: greedy_Eol)
qed

lemma exec_at_Plus_Eol:
  "exec_at (Seq (Plus C) Eol) i s =
     (if s \<noteq> [] \<and> list_all C s
      then Some \<lparr>m_index = i, m_end = i + length s, m_text = s, m_groups = Map.empty\<rparr>
      else None)"
  unfolding exec_at_def run_Plus_Eol by simp

lemma strip_all: "list_all C s \<Longrightarrow> strip C s = []"
  by (cases s) auto

lemma strip_prefix: "take (length (strip C s)) s = strip C s"
  by (induction s) auto

lemma strip_length: "length (strip C s) \<le> length s"
  by (induction s) auto

lemma search_from_Plus_Eol:
  "search_from (Seq (Plus C) Eol) i s =
     (if strip C s = s then None
      else Some \<lparr>m_index = i + length (strip C s), m_end = i + length s,
                  m_text = drop (length (strip C s)) s, m_groups = Map.empty\<rparr>)"
proof (induction s arbitrary: i)
  case Nil
  then show ?case by (simp add: exec_at_Plus_Eol)
next
  case (Cons x xs)
  show ?case
  proof (cases "list_all C (x # xs)")
    case True
    then show ?thesis by (simp add: exec_at_Plus_Eol)
  next
    case False
    then have "exec_at (Seq (Plus C) Eol) i (x # xs) = None"
      by (simp only: exec_at_Plus_Eol if_False simp_thms)
    then have a: "search_from (Seq (Plus C) Eol) i (x # xs) = search_from (Seq (Plus C) Eol) (Suc i) xs"
      by simp
    show ?thesis unfolding a Cons.IH using False by simp
  qed
qed

lemma replace1_Plus_Eol: "replace1 (Seq (Plus C) Eol) [] s = strip C s"
  unfolding replace1_def match_def search_from_Plus_Eol
  by (simp add: strip_prefix)

lemma strip_rev: "strip C s = rev (dropWhile C (rev s))"
proof (induction s)
  case Nil
  then show ?case by simp
next
  case (Cons x xs)
  show ?case
  proof (cases "list_all C xs")
    case True
    then have "dropWhile C (rev xs) = []" by (simp add: list_all_iff)
    then have "dropWhile C (rev xs @ [x]) = dropWhile C [x]"
      using True by (simp add: dropWhile_append list_all_iff)
    then show ?thesis using True by (simp add: strip_all)
  next
    case False
    then have "dropWhile C (rev xs @ [x]) = dropWhile C (rev xs) @ [x]"
      by (auto simp add: dropWhile_append list_all_iff)
    then show ?thesis using False by (simp add: Cons.IH)
  qed
qed

text \<open>
  What holds of the result for every document: each entry is a candidate without its
  trailing punctuation, the entries stand in the order of discovery, and no entry ends in
  one of the five punctuation marks. When no candidate ends in one of them, the entries
  are distinct.
\<close>

lemma replace1_TRAILING: "replace1 TRAILING [] s = trimmed s"
  unfolding TRAILING_def trimmed_def replace1_Plus_Eol strip_rev ..

lemma trimmed_idem: "trimmed (trimmed s) = trimmed s"
  unfolding trimmed_def by (simp add: dropWhile_idem)

lemma trimmed_last: "trimmed s = [] \<or> \<not> one_of ''),.]>'' (last (trimmed s))"
proof (cases "dropWhile (one_of ''),.]>'') (rev s)")
  case Nil
  then show ?thesis by (simp add: trimmed_def)
next
  case (Cons y ys)
  then have "\<not> one_of ''),.]>'' y" using hd_dropWhile[of "one_of ''),.]>''" "rev s"] by simp
  then show ?thesis using Cons by (simp add: trimmed_def)
qed

lemma addUrl_trimmed:
  assumes "\<forall>u\<in>set urls. trimmed u = u"
  shows "\<forall>u\<in>set (addUrl urls v). trimmed u = u"
  using assms by (auto simp: addUrl_def replace1_TRAILING trimmed_idem split: option.splits)

lemma foldl_addUrl_trimmed:
  assumes "\<forall>u\<in>set urls. trimmed u = u"
  shows "\<forall>u\<in>set (foldl (\<lambda>urls m. addUrl urls (g m)) urls ms). trimmed u = u"
  using assms
proof (induction ms arbitrary: urls)
  case Nil
  then show ?case by simp
next
  case (Cons m ms)
  show ?case using Cons.IH[OF addUrl_trimmed[OF Cons.prems]] by simp
qed

lemma findYouTubeUrls_trimmed: "\<forall>u\<in>set (findYouTubeUrls content). trimmed u = u"
proof -
  have e: "\<forall>u\<in>set ([]::jsstring list). trimmed u = u" by simp
  have 1: "\<forall>u\<in>set (case group1 (match FRONTMATTER content) of
                     None \<Rightarrow> []
                   | Some fm \<Rightarrow> if fm \<noteq> [] then addUrl [] (group1 (match SOURCE fm)) else []). trimmed u = u"
    using addUrl_trimmed[OF e] by (auto split: option.splits)
  show ?thesis
    unfolding findYouTubeUrls_def Let_def
    by (rule foldl_addUrl_trimmed[OF foldl_addUrl_trimmed[OF 1]])
qed

lemma foldl_addUrl_captured:
  "foldl (\<lambda>urls m. addUrl urls (m_groups m 1)) urls ms = foldl addUrl urls (captured ms)"
  by (simp add: captured_def foldl_map)

lemma foldl_addUrl_candidates:
  "foldl addUrl urls us =
     foldl (\<lambda>urls url. addUrl urls (Some url)) urls
       (concat (map (\<lambda>u. case u of None \<Rightarrow> [] | Some url \<Rightarrow> [url]) us))"
  by (induction us arbitrary: urls) (auto simp: addUrl_def split: option.splits)

lemma findYouTubeUrls_candidates:
  "findYouTubeUrls content = foldl (\<lambda>urls url. addUrl urls (Some url)) [] (candidates content)"
proof -
  have "findYouTubeUrls content =
      foldl addUrl []
        ((case group1 (match FRONTMATTER content) of
           None \<Rightarrow> []
         | Some fm \<Rightarrow> if fm \<noteq> [] then [group1 (match SOURCE fm)] else [])
        @ captured (matchAll MARKDOWN content) @ captured (matchAll PLAIN content))"
    unfolding findYouTubeUrls_def Let_def foldl_addUrl_captured
    by (simp split: option.splits)
  then show ?thesis unfolding candidates_def foldl_addUrl_candidates[symmetric] .
qed

lemma foldl_addUrl_subseq:
  "\<exists>r. foldl (\<lambda>urls url. addUrl urls (Some url)) urls us = urls @ r \<and> subseq r (map trimmed us)"
proof (induction us arbitrary: urls)
  case Nil
  then show ?case by simp
next
  case (Cons u us)
  show ?case
  proof (cases "u \<noteq> [] \<and> u \<notin> set urls")
    case True
    from Cons.IH[of "urls @ [trimmed u]"] obtain r where
      r: "foldl (\<lambda>urls url. addUrl urls (Some url)) (urls @ [trimmed u]) us = (urls @ [trimmed u]) @ r"
        "subseq r (map trimmed us)" by blast
    have "foldl (\<lambda>urls url. addUrl urls (Some url)) urls (u # us) = urls @ (trimmed u # r)"
      using True r(1) by (simp add: addUrl_def replace1_TRAILING)
    moreover have "subseq (trimmed u # r) (map trimmed (u # us))"
      using r(2) by simp
    ultimately show ?thesis by blast
  next
    case False
    from Cons.IH[of urls] obtain r where
      r: "foldl (\<lambda>urls url. addUrl urls (Some url)) urls us = urls @ r"
        "subseq r (map trimmed us)" by blast
    have "foldl (\<lambda>urls url. addUrl urls (Some url)) urls (u # us) = urls @ r"
      using False r(1) by (auto simp add: addUrl_def)
    moreover have "subseq r (map trimmed (u # us))"
      using r(2) by (simp add: list_emb_Cons)
    ultimately show ?thesis by blast
  qed
qed

lemma findYouTubeUrls_order:
  "subseq (findYouTubeUrls content) (map trimmed (candidates content))"
  using foldl_addUrl_subseq[of "[]" "candidates content"]
  unfolding findYouTubeUrls_candidates by auto

lemma foldl_addUrl_distinct:
  assumes "distinct urls" and "\<forall>u\<in>set us. trimmed u = u"
  shows "distinct (foldl (\<lambda>urls url. addUrl urls (Some url)) urls us)"
  using assms
proof (induction us arbitrary: urls)
  case Nil
  then show ?case by simp
next
  case (Cons u us)
  have "distinct (addUrl urls (Some u))"
    using Cons.prems by (auto simp: addUrl_def replace1_TRAILING)
  then show ?case using Cons.IH[of "addUrl urls (Some u)"] Cons.prems(2) by simp
qed

lemma findYouTubeUrls_distinct:
  assumes "\<forall>u\<in>set (candidates content). trimmed u = u"
  shows "distinct (findYouTubeUrls content)"
  unfolding findYouTubeUrls_candidates
  using foldl_addUrl_distinct[OF _ assms] by simp

text \<open>
  Claim C2 says that the result holds no duplicates. \<open>addUrl\<close> looks the URL up as it
  was matched, with its trailing punctuation, in a list that holds the URLs without
  theirs: a URL that is followed by punctuation at each of two places is pushed twice.
\<close>

theorem findYouTubeUrls_duplicate:
  "findYouTubeUrls (js ''See https://youtu.be/dQw4w9WgXcQ, or https://youtu.be/dQw4w9WgXcQ.'')
     = [js ''https://youtu.be/dQw4w9WgXcQ'', js ''https://youtu.be/dQw4w9WgXcQ'']"
  by code_simp

section \<open>Decoding entities\<close>

text \<open>
  The cases of the repository's unit tests and of the specification: \<open>decodeXmlEntities\<close>
  is two passes of \<open>decode\<close>, so the double-encoded \<open>&amp;#39;\<close> becomes the
  apostrophe. A name that is no property of \<open>NAMED_ENTITIES\<close> or of its prototype is
  left as it is.
\<close>

lemma decodeXmlEntities_examples:
  "decodeXmlEntities (js ''Let&#39;s go'') = js ''Let's go''"
  "decodeXmlEntities (js ''A &amp; B'') = js ''A & B''"
  "decodeXmlEntities (js ''&lt;tag&gt;'') = js ''<tag>''"
  "decodeXmlEntities (js ''&#x3C;&#x3E;'') = js ''<>''"
  "decodeXmlEntities (js ''&amp;#39;'') = [0x27]"
  "decodeXmlEntities (js ''Normal text'') = js ''Normal text''"
  "decodeXmlEntities (js ''Let&amp;#39;s go'') = js ''Let's go''"
  "decodeXmlEntities (js ''&#60;&#62;'') = js ''<>''"
  "decodeXmlEntities (js ''&bogus; &nbsp;'') = js ''&bogus;  ''"
  by code_simp+

text \<open>
  Claim C3 says that an unknown named entity is left verbatim. The replacer reads
  \<open>NAMED_ENTITIES[named]\<close> without asking whether the property is the object's own, so
  the names of the properties of \<open>Object.prototype\<close> are found: \<open>&constructor;\<close> is
  replaced by the text of the function \<open>Object\<close>.
\<close>

theorem decodeXmlEntities_inherited_property:
  "decodeXmlEntities (js ''&constructor;'') = js ''function Object() { [native code] }''"
  by code_simp

section \<open>Parsing the captions\<close>

lemma close_tag: "js ''</text>'' = 0x3C # js ''/text>''"
  by (simp add: js_def)

lemma open_tag: "js ''<text start='' = 0x3C # js ''text start=''"
  by (simp add: js_def)

lemma element_Cons: "element s d t = 0x3C # tl (element s d t)"
  by (simp add: element_def open_tag)

lemma RE_XML_TRANSCRIPT_Str: "\<exists>r. RE_XML_TRANSCRIPT = Seq (Str (js ''<text start='')) r"
  by (simp add: RE_XML_TRANSCRIPT_def)

lemma run_element:
  assumes "0x22 \<notin> set s" and "0x22 \<notin> set d" and "0x3C \<notin> set t"
  shows "run RE_XML_TRANSCRIPT (i, element s d t @ rest, c)
           = [(i + length (element s d t), rest, c(1 \<mapsto> s, 2 \<mapsto> d, 3 \<mapsto> t))]"
proof -
  have g3: "run (Seq (Grp 3 (Star (\<lambda>c. c \<noteq> 0x3C))) (Seq (Str (js ''</text>'')) Eps))
              (j, t @ js ''</text>'' @ rest, c')
            = [(j + length t + 7, rest, c'(3 \<mapsto> t))]" for j c'
  proof -
    have "run (Seq (Grp 3 (Star (\<lambda>c. c \<noteq> 0x3C))) (Seq (Str (js ''</text>'')) Eps))
              (j, t @ js ''</text>'' @ rest, c')
          = run (Seq (Str (js ''</text>'')) Eps) (j + length t, js ''</text>'' @ rest, c'(3 \<mapsto> t))"
    proof (rule run_grp_star_cont)
      show "\<forall>x\<in>set t. x \<noteq> 0x3C" using assms(3) by auto
      show "js ''</text>'' @ rest = [] \<or> \<not> hd (js ''</text>'' @ rest) \<noteq> 0x3C"
        by (simp add: close_tag)
      show "\<And>j x xs c'. x \<noteq> 0x3C \<Longrightarrow> run (Seq (Str (js ''</text>'')) Eps) (j, x # xs, c') = []"
        by (simp add: run_Str close_tag)
    qed
    also have "\<dots> = [(j + length t + 7, rest, c'(3 \<mapsto> t))]"
      by (simp only: run_Seq_Str) simp
    finally show ?thesis .
  qed
  show ?thesis
    unfolding RE_XML_TRANSCRIPT_def element_def seqs.simps
    apply (simp only: append_assoc append_Cons append_Nil run_Seq_Str run_Seq_Lit
          run_until[OF assms(1)] run_until[OF assms(2)] g3)
    apply simp
    done
qed

lemma exec_at_element:
  assumes "0x22 \<notin> set s" and "0x22 \<notin> set d" and "0x3C \<notin> set t"
  shows "exec_at RE_XML_TRANSCRIPT i (element s d t @ rest)
           = Some \<lparr>m_index = i, m_end = i + length (element s d t), m_text = element s d t,
                   m_groups = [1 \<mapsto> s, 2 \<mapsto> d, 3 \<mapsto> t]\<rparr>"
  by (simp add: exec_at_def run_element[OF assms])

lemma plain_no_prefix:
  assumes "plain (x # g)" and "rest = [] \<or> hd rest = 0x3C"
  shows "\<not> prefix (js ''<text start='') ((x # g) @ rest)"
proof
  assume "prefix (js ''<text start='') ((x # g) @ rest)"
  then have "prefix (js ''<text start='') (x # g)
      \<or> (\<exists>us. js ''<text start='' = (x # g) @ us \<and> prefix us rest)"
    by (simp only: prefix_append)
  moreover have "\<not> prefix (js ''<text start='') (x # g)"
    using assms(1) by (auto simp: plain_def)
  ultimately obtain us where us: "js ''<text start='' = (x # g) @ us" "prefix us rest"
    by blast
  show False
  proof (cases us)
    case Nil
    with us(1) have "prefix (js ''<text start='') (x # g)" by simp
    then show ?thesis using assms(1) by (auto simp: plain_def)
  next
    case (Cons u us')
    with us(2) assms(2) have "u = 0x3C" by (cases rest) auto
    with us(1) Cons have "tl (js ''<text start='') = g @ 0x3C # us'"
      by simp
    then have "0x3C \<in> set (tl (js ''<text start=''))" by simp
    then show ?thesis by (simp add: js_def)
  qed
qed

lemma plain_tl: "plain (x # g) \<Longrightarrow> plain g"
  by (auto simp: plain_def sublist_Cons_right)

lemma skip_plain:
  assumes "plain g" and "rest = [] \<or> hd rest = 0x3C"
  shows "matchAll_from RE_XML_TRANSCRIPT i (g @ rest) = matchAll_from RE_XML_TRANSCRIPT (i + length g) rest"
  using assms(1)
proof (induction g arbitrary: i)
  case Nil
  then show ?case by simp
next
  case (Cons x g)
  obtain r where r: "RE_XML_TRANSCRIPT = Seq (Str (js ''<text start='')) r"
    using RE_XML_TRANSCRIPT_Str by blast
  have "exec_at RE_XML_TRANSCRIPT i (x # g @ rest) = None"
    using plain_no_prefix[OF Cons.prems assms(2)] unfolding r by (simp add: exec_at_no_prefix)
  then have "matchAll_from RE_XML_TRANSCRIPT i ((x # g) @ rest)
               = matchAll_from RE_XML_TRANSCRIPT (Suc i) (g @ rest)"
    by (simp add: matchAll_from_skip)
  then show ?case using Cons.IH[OF plain_tl[OF Cons.prems]] by simp
qed

lemma entry_of_groups:
  assumes "m_groups m 1 = Some s" and "m_groups m 2 = Some d" and "m_groups m 3 = Some t"
  shows "entry_of lang m
           = (if has_times (g, s, d, t) then Some (item_entry lang (g, s, d, t)) else None)"
  using assms by (simp add: entry_of_def truthy_def has_times_def item_entry_def)

lemma scan_document:
  assumes "well_formed items tail"
  shows "map m_text (matchAll_from RE_XML_TRANSCRIPT i (document items tail))
           = map (\<lambda>(g, s, d, t). element s d t) items
         \<and> List.map_filter (entry_of lang) (matchAll_from RE_XML_TRANSCRIPT i (document items tail))
           = map (item_entry lang) (filter has_times items)"
  using assms
proof (induction items arbitrary: i)
  case Nil
  then have p: "plain tail" by (simp add: well_formed_def)
  have "matchAll_from RE_XML_TRANSCRIPT i (tail @ []) = matchAll_from RE_XML_TRANSCRIPT (i + length tail) []"
    by (rule skip_plain[OF p]) simp
  moreover have "exec_at RE_XML_TRANSCRIPT (i + length tail) [] = None"
  proof -
    obtain r where r: "RE_XML_TRANSCRIPT = Seq (Str (js ''<text start='')) r"
      using RE_XML_TRANSCRIPT_Str by blast
    have "\<not> prefix (js ''<text start='') []" by (simp add: open_tag)
    then show ?thesis unfolding r by (rule exec_at_no_prefix)
  qed
  ultimately show ?case by (simp add: matchAll_from_end map_filter_simps)
next
  case (Cons item items)
  obtain g s d t where item: "item = (g, s, d, t)" by (cases item) auto
  from Cons.prems have wf: "well_formed items tail" and p: "plain g"
    and q: "0x22 \<notin> set s" "0x22 \<notin> set d" "0x3C \<notin> set t"
    by (auto simp: well_formed_def item)
  let ?rest = "document items tail"
  define m where "m = \<lparr>m_index = i + length g, m_end = i + length g + length (element s d t),
             m_text = element s d t, m_groups = [1 \<mapsto> s, 2 \<mapsto> d, 3 \<mapsto> t]\<rparr>"
  have e: "element s d t @ ?rest \<noteq> []" "hd (element s d t @ ?rest) = 0x3C" "0 < length (element s d t)"
    by (subst element_Cons, simp)+
  have x: "exec_at RE_XML_TRANSCRIPT (i + length g) (element s d t @ ?rest) = Some m"
    unfolding m_def by (rule exec_at_element[OF q])
  have me: "m_end m = i + length g + length (element s d t)" and mt: "m_text m = element s d t"
    by (simp_all add: m_def)
  have en: "entry_of lang m
              = (if has_times (g, s, d, t) then Some (item_entry lang (g, s, d, t)) else None)"
    by (rule entry_of_groups) (simp_all add: m_def)
  have "matchAll_from RE_XML_TRANSCRIPT i (document (item # items) tail)
          = matchAll_from RE_XML_TRANSCRIPT (i + length g) (element s d t @ ?rest)"
    using skip_plain[OF p, of "element s d t @ ?rest" i] e by (simp add: item)
  also have "\<dots> = m # matchAll_from RE_XML_TRANSCRIPT (i + length g + length (element s d t)) ?rest"
    using matchAll_from_hit[OF x me e(3) e(1)] by simp
  finally have "matchAll_from RE_XML_TRANSCRIPT i (document (item # items) tail)
          = m # matchAll_from RE_XML_TRANSCRIPT (i + length g + length (element s d t)) ?rest" .
  then show ?case
    using Cons.IH[OF wf, of "i + length g + length (element s d t)"]
    by (simp add: item map_filter_simps en mt)
qed

lemma sure_groups_xml: "sure_groups RE_XML_TRANSCRIPT = {1, 2, 3}"
  by (auto simp: RE_XML_TRANSCRIPT_def sure_groups_Str)

lemma xml_match_groups:
  assumes "m \<in> set (matchAll RE_XML_TRANSCRIPT xml)"
  shows "\<exists>s d t. m_groups m 1 = Some s \<and> m_groups m 2 = Some d \<and> m_groups m 3 = Some t"
proof -
  from assms obtain k s' where "exec_at RE_XML_TRANSCRIPT k s' = Some m"
    unfolding matchAll_def using matchAll_from_exec by blast
  from exec_at_sure_groups[OF this] have "{1, 2, 3} \<subseteq> dom (m_groups m)"
    by (simp only: sure_groups_xml)
  then show ?thesis by (auto simp: dom_def)
qed

lemma entry_of_None:
  assumes "m \<in> set (matchAll RE_XML_TRANSCRIPT xml)"
  shows "(entry_of lang m = None) = (m_groups m 1 = Some [] \<or> m_groups m 2 = Some [])"
  using xml_match_groups[OF assms] by (auto simp: entry_of_def truthy_def)

text \<open>
  Claim C4, as the code has it. \<open>parseTranscriptXml\<close> throws exactly when every match of
  the element pattern that the scan of the input yields has an empty \<open>start\<close> or an empty
  \<open>dur\<close> attribute (which is the case when there is no match); it throws nothing but
  \<open>NoEntriesFound\<close>, and it never returns the empty sequence.
\<close>

theorem parseTranscriptXml_fails_iff:
  "(parseTranscriptXml xml lang = Inl NoEntriesFound)
     = (\<forall>m\<in>set (matchAll RE_XML_TRANSCRIPT xml). m_groups m 1 = Some [] \<or> m_groups m 2 = Some [])
   \<and> parseTranscriptXml xml lang \<noteq> Inr []
   \<and> (\<forall>e. parseTranscriptXml xml lang = Inl e \<longrightarrow> e = NoEntriesFound)"
proof -
  have "(List.map_filter (entry_of lang) (matchAll RE_XML_TRANSCRIPT xml) = [])
          = (\<forall>m\<in>set (matchAll RE_XML_TRANSCRIPT xml). m_groups m 1 = Some [] \<or> m_groups m 2 = Some [])"
    unfolding map_filter_Nil using entry_of_None[of _ xml lang] by blast
  then show ?thesis
    by (auto simp: parseTranscriptXml_def Let_def)
qed

theorem parseTranscriptXml_fails_iff_witness:
  "parseTranscriptXml empty_start (js ''en'') = Inl NoEntriesFound
   \<and> parseTranscriptXml empty_start (js ''en'') \<noteq> Inr []"
proof -
  have "\<forall>m\<in>set (matchAll RE_XML_TRANSCRIPT empty_start). m_groups m 1 = Some [] \<or> m_groups m 2 = Some []"
    by code_simp
  then show ?thesis
    using parseTranscriptXml_fails_iff[of empty_start "js ''en''"] by blast
qed

text \<open>
  Claim C4 says that the parser fails only if the input holds no matching element. An
  element with an empty \<open>start\<close> attribute matches the pattern and is skipped by the
  guard \<open>start && dur\<close>: the input \<open><text start="" dur="1">x</text>\<close> holds one
  matching element, and the parser fails.
\<close>

theorem parseTranscriptXml_fails_with_element:
  "\<not> (\<forall>xml. (parseTranscriptXml xml (js ''en'') = Inl NoEntriesFound)
              = (matchAll RE_XML_TRANSCRIPT xml = []))"
proof
  assume a: "\<forall>xml. (parseTranscriptXml xml (js ''en'') = Inl NoEntriesFound)
              = (matchAll RE_XML_TRANSCRIPT xml = [])"
  have f: "parseTranscriptXml empty_start (js ''en'') = Inl NoEntriesFound"
    by code_simp
  have m: "matchAll RE_XML_TRANSCRIPT empty_start \<noteq> []"
    by code_simp
  from a f m show False by blast
qed

text \<open>What the scan of an arbitrary input finds.\<close>

lemma run_Seq_Str_dest:
  assumes "run (Seq (Str p) r) (i, s, c) \<noteq> []"
  shows "\<exists>rest. s = p @ rest \<and> run r (i + length p, rest, c) \<noteq> []"
proof -
  have e: "run (Seq (Str p) r) (i, s, c)
      = (if prefix p s then run r (i + length p, drop (length p) s, c) else [])"
    by (simp add: run_Str)
  from assms have x: "(if prefix p s then run r (i + length p, drop (length p) s, c) else []) \<noteq> []"
    unfolding e .
  then have p: "prefix p s" by (cases "prefix p s") simp_all
  with x have n: "run r (i + length p, drop (length p) s, c) \<noteq> []" by simp
  from p have "s = p @ drop (length p) s" by (auto simp: prefix_def)
  with n show ?thesis by blast
qed

lemma run_Seq_Lit_dest:
  assumes "run (Seq (Lit a) r) (i, s, c) \<noteq> []"
  shows "\<exists>rest. s = a # rest \<and> run r (Suc i, rest, c) \<noteq> []"
  using assms by (cases s) (auto split: if_splits)

lemma run_grp_star_dest:
  assumes "run (Seq (Grp k (Star C)) r) (i, s, c) \<noteq> []"
    and "\<And>j x xs c'. C x \<Longrightarrow> run r (j, x # xs, c') = []"
  shows "\<exists>ds rest. s = ds @ rest \<and> (\<forall>x\<in>set ds. C x) \<and> run r (i + length ds, rest, c(k \<mapsto> ds)) \<noteq> []"
proof -
  let ?ds = "takeWhile C s" and ?rest = "dropWhile C s"
  have d: "\<forall>x\<in>set ?ds. C x" by (auto dest: set_takeWhileD)
  have h: "?rest = [] \<or> \<not> C (hd ?rest)" using hd_dropWhile[of C s] by blast
  have e: "run (Seq (Grp k (Star C)) r) (i, s, c) = run r (i + length ?ds, ?rest, c(k \<mapsto> ?ds))"
    using run_grp_star_cont[OF d h assms(2), of k i c] by (simp only: takeWhile_dropWhile_id)
  from assms(1) have "run r (i + length ?ds, ?rest, c(k \<mapsto> ?ds)) \<noteq> []"
    unfolding e .
  moreover have "s = ?ds @ ?rest" by simp
  ultimately show ?thesis using d by blast
qed

lemma run_xml_dest:
  assumes "run RE_XML_TRANSCRIPT (i, s, c) \<noteq> []"
  shows "\<exists>a d t rest. s = element a d t @ rest \<and> 0x22 \<notin> set a \<and> 0x22 \<notin> set d \<and> 0x3C \<notin> set t"
proof -
  let ?r3 = "Seq (Grp 3 (Star (\<lambda>c. c \<noteq> 0x3C))) (Seq (Str (js ''</text>'')) Eps)"
  let ?r2 = "Seq (Grp 2 (Star (\<lambda>c. c \<noteq> 0x22))) (Seq (Lit 0x22) (Seq (Lit 0x3E) ?r3))"
  let ?r1 = "Seq (Grp 1 (Star (\<lambda>c. c \<noteq> 0x22))) (Seq (Lit 0x22) (Seq (Str (js '' dur='')) (Seq (Lit 0x22) ?r2)))"
  have re: "RE_XML_TRANSCRIPT = Seq (Str (js ''<text start='')) (Seq (Lit 0x22) ?r1)"
    by (simp add: RE_XML_TRANSCRIPT_def)
  have q: "\<And>j x xs c' r. x \<noteq> 0x22 \<Longrightarrow> run (Seq (Lit 0x22) r) (j, x # xs, c') = []"
    by simp
  have l: "\<And>j x xs c'. x \<noteq> 0x3C \<Longrightarrow> run (Seq (Str (js ''</text>'')) Eps) (j, x # xs, c') = []"
    by (simp add: run_Str close_tag)
  from assms obtain s1 where s1: "s = js ''<text start='' @ s1"
    and n1: "run (Seq (Lit 0x22) ?r1) (i + length (js ''<text start=''), s1, c) \<noteq> []"
    unfolding re using run_Seq_Str_dest by blast
  from run_Seq_Lit_dest[OF n1] obtain s2 where s2: "s1 = 0x22 # s2"
    and n2: "run ?r1 (Suc (i + length (js ''<text start='')), s2, c) \<noteq> []"
    by blast
  from run_grp_star_dest[OF n2 q] obtain a s3 where s3: "s2 = a @ s3" and a: "\<forall>x\<in>set a. x \<noteq> 0x22"
    and n3: "run (Seq (Lit 0x22) (Seq (Str (js '' dur='')) (Seq (Lit 0x22) ?r2)))
               (Suc (i + length (js ''<text start='')) + length a, s3, c(1 \<mapsto> a)) \<noteq> []"
    by blast
  from run_Seq_Lit_dest[OF n3] obtain s4 where s4: "s3 = 0x22 # s4"
    and n4: "run (Seq (Str (js '' dur='')) (Seq (Lit 0x22) ?r2))
               (Suc (Suc (i + length (js ''<text start='')) + length a), s4, c(1 \<mapsto> a)) \<noteq> []"
    by blast
  from run_Seq_Str_dest[OF n4] obtain s5 where s5: "s4 = js '' dur='' @ s5"
    and n5: "run (Seq (Lit 0x22) ?r2)
               (Suc (Suc (i + length (js ''<text start='')) + length a) + length (js '' dur=''), s5, c(1 \<mapsto> a)) \<noteq> []"
    by blast
  from run_Seq_Lit_dest[OF n5] obtain s6 where s6: "s5 = 0x22 # s6"
    and n6: "run ?r2
               (Suc (Suc (Suc (i + length (js ''<text start='')) + length a) + length (js '' dur='')), s6, c(1 \<mapsto> a)) \<noteq> []"
    by blast
  from run_grp_star_dest[OF n6 q] obtain d s7 where s7: "s6 = d @ s7" and d: "\<forall>x\<in>set d. x \<noteq> 0x22"
    and n7: "run (Seq (Lit 0x22) (Seq (Lit 0x3E) ?r3))
               (Suc (Suc (Suc (i + length (js ''<text start='')) + length a) + length (js '' dur='')) + length d,
                s7, c(1 \<mapsto> a, 2 \<mapsto> d)) \<noteq> []"
    by blast
  from run_Seq_Lit_dest[OF n7] obtain s8 where s8: "s7 = 0x22 # s8"
    and n8: "run (Seq (Lit 0x3E) ?r3)
               (Suc (Suc (Suc (Suc (i + length (js ''<text start='')) + length a) + length (js '' dur='')) + length d),
                s8, c(1 \<mapsto> a, 2 \<mapsto> d)) \<noteq> []"
    by blast
  from run_Seq_Lit_dest[OF n8] obtain s9 where s9: "s8 = 0x3E # s9"
    and n9: "run ?r3
               (Suc (Suc (Suc (Suc (Suc (i + length (js ''<text start='')) + length a) + length (js '' dur='')) + length d)),
                s9, c(1 \<mapsto> a, 2 \<mapsto> d)) \<noteq> []"
    by blast
  from run_grp_star_dest[OF n9 l] obtain t s10 where s10: "s9 = t @ s10" and t: "\<forall>x\<in>set t. x \<noteq> 0x3C"
    and n10: "run (Seq (Str (js ''</text>'')) Eps)
               (Suc (Suc (Suc (Suc (Suc (i + length (js ''<text start='')) + length a) + length (js '' dur='')) + length d)) + length t,
                s10, c(1 \<mapsto> a, 2 \<mapsto> d, 3 \<mapsto> t)) \<noteq> []"
    by blast
  from run_Seq_Str_dest[OF n10] obtain rest where s11: "s10 = js ''</text>'' @ rest"
    by blast
  have "s = element a d t @ rest"
    by (simp add: s1 s2 s3 s4 s5 s6 s7 s8 s9 s10 s11 element_def)
  moreover have "0x22 \<notin> set a" "0x22 \<notin> set d" "0x3C \<notin> set t" using a d t by auto
  ultimately show ?thesis by blast
qed

lemma exec_at_xml:
  assumes "exec_at RE_XML_TRANSCRIPT i s = Some m"
  shows "\<exists>a d t rest. s = element a d t @ rest \<and> 0x22 \<notin> set a \<and> 0x22 \<notin> set d \<and> 0x3C \<notin> set t
           \<and> m = \<lparr>m_index = i, m_end = i + length (element a d t), m_text = element a d t,
                   m_groups = [1 \<mapsto> a, 2 \<mapsto> d, 3 \<mapsto> t]\<rparr>"
proof -
  from assms have "run RE_XML_TRANSCRIPT (i, s, Map.empty) \<noteq> []"
    by (auto simp: exec_at_def split: list.splits)
  from run_xml_dest[OF this] obtain a d t rest where s: "s = element a d t @ rest"
    and q: "0x22 \<notin> set a" "0x22 \<notin> set d" "0x3C \<notin> set t" by blast
  from exec_at_element[OF q, of i rest] assms have
    "m = \<lparr>m_index = i, m_end = i + length (element a d t), m_text = element a d t,
           m_groups = [1 \<mapsto> a, 2 \<mapsto> d, 3 \<mapsto> t]\<rparr>"
    by (simp add: s)
  with s q show ?thesis by blast
qed

lemma matchAll_from_exec_at:
  "m \<in> set (matchAll_from r i s) \<Longrightarrow> \<exists>k\<le>length s. exec_at r (i + k) (drop k s) = Some m"
proof (induction r i s rule: matchAll_from.induct)
  case (1 r i s)
  show ?case
  proof (cases "exec_at r i s")
    case None
    with 1(3) have s: "s \<noteq> []" and m: "m \<in> set (matchAll_from r (Suc i) (tl s))"
      by (auto simp: matchAll_from_None split: if_splits)
    from 1(1)[OF None s m] obtain k where "k \<le> length (tl s)"
      "exec_at r (Suc i + k) (drop k (tl s)) = Some m" by blast
    then have "Suc k \<le> length s" "exec_at r (i + Suc k) (drop (Suc k) s) = Some m"
      using s by (cases s; simp add: drop_Suc)+
    then show ?thesis by blast
  next
    case (Some m')
    show ?thesis
    proof (cases "m = m'")
      case True
      then have "exec_at r (i + 0) (drop 0 s) = Some m" using Some by simp
      then show ?thesis by blast
    next
      case False
      define n where "n = max 1 (m_end m' - i)"
      from False 1(3) have s: "s \<noteq> []" and m: "m \<in> set (matchAll_from r (i + n) (drop n s))"
        by (auto simp: matchAll_from_Some[OF Some] n_def split: if_splits)
      from 1(2)[OF Some s] m obtain k where k: "k \<le> length (drop n s)"
        "exec_at r (i + n + k) (drop k (drop n s)) = Some m" unfolding n_def by blast
      from exec_at_bounds[OF Some] have "m_end m' - i \<le> length s" by simp
      with s have n: "n \<le> length s" unfolding n_def by (cases s) simp_all
      from k(1) n have "n + k \<le> length s" by simp
      moreover from k(2) have "exec_at r (i + (n + k)) (drop (n + k) s) = Some m"
        by (simp add: add.assoc add.commute[of k])
      ultimately show ?thesis by blast
    qed
  qed
qed

lemma xml_element_match:
  assumes "m \<in> set (matchAll RE_XML_TRANSCRIPT xml)"
  shows "element_match xml m"
proof -
  from assms obtain k where "exec_at RE_XML_TRANSCRIPT k (drop k xml) = Some m"
    unfolding matchAll_def using matchAll_from_exec_at[of m RE_XML_TRANSCRIPT 0 xml] by auto
  from exec_at_xml[OF this] obtain a d t rest where
    s: "drop k xml = element a d t @ rest" and q: "0x22 \<notin> set a" "0x22 \<notin> set d" "0x3C \<notin> set t"
    and m: "m = \<lparr>m_index = k, m_end = k + length (element a d t), m_text = element a d t,
                   m_groups = [1 \<mapsto> a, 2 \<mapsto> d, 3 \<mapsto> t]\<rparr>"
    by blast
  show ?thesis
    unfolding element_match_def
    by (rule exI[of _ a], rule exI[of _ d], rule exI[of _ t]) (simp add: q m s)
qed

lemma xml_scan_complete:
  assumes "0x22 \<notin> set a" and "0x22 \<notin> set d" and "0x3C \<notin> set t"
  shows "\<exists>m\<in>set (matchAll_from RE_XML_TRANSCRIPT i (pre @ element a d t @ post)).
           (m_index m = i + length pre \<and> m_text m = element a d t)
           \<or> (m_index m < i + length pre \<and> i + length pre < m_end m)"
proof (induction "length pre" arbitrary: pre i rule: less_induct)
  case less
  let ?s = "pre @ element a d t @ post"
  have ne: "element a d t @ post \<noteq> []" "0 < length (element a d t)"
    by (subst element_Cons, simp)+
  show ?case
  proof (cases pre)
    case Nil
    from exec_at_element[OF assms, of i post] obtain m where
      m: "exec_at RE_XML_TRANSCRIPT i (element a d t @ post) = Some m"
      and mi: "m_index m = i" "m_text m = element a d t" by simp
    have "m \<in> set (matchAll_from RE_XML_TRANSCRIPT i (element a d t @ post))"
      by (simp add: matchAll_from_Some[OF m])
    then show ?thesis using mi Nil by auto
  next
    case (Cons x pre')
    show ?thesis
    proof (cases "exec_at RE_XML_TRANSCRIPT i ?s")
      case None
      have "matchAll_from RE_XML_TRANSCRIPT i ?s
          = matchAll_from RE_XML_TRANSCRIPT (Suc i) (pre' @ element a d t @ post)"
        using None by (simp add: matchAll_from_None Cons)
      moreover from less[of pre' "Suc i"] Cons have
        "\<exists>m\<in>set (matchAll_from RE_XML_TRANSCRIPT (Suc i) (pre' @ element a d t @ post)).
           (m_index m = Suc i + length pre' \<and> m_text m = element a d t)
           \<or> (m_index m < Suc i + length pre' \<and> Suc i + length pre' < m_end m)" by simp
      ultimately show ?thesis using Cons by simp
    next
      case (Some m)
      from exec_at_xml[OF Some] obtain a' d' t' rest where
        m: "m = \<lparr>m_index = i, m_end = i + length (element a' d' t'), m_text = element a' d' t',
                   m_groups = [1 \<mapsto> a', 2 \<mapsto> d', 3 \<mapsto> t']\<rparr>" by blast
      have pos: "0 < length (element a' d' t')" by (subst element_Cons) simp
      define n where "n = length (element a' d' t')"
      have me: "m_end m = i + n" "m_index m = i" by (simp_all add: m n_def)
      have s: "?s \<noteq> []" using Cons by simp
      have all: "matchAll_from RE_XML_TRANSCRIPT i ?s
          = m # matchAll_from RE_XML_TRANSCRIPT (i + n) (drop n ?s)"
        using matchAll_from_hit[OF Some me(1) _ s] pos by (simp add: n_def)
      show ?thesis
      proof (cases "length pre < n")
        case True
        then have "m_index m < i + length pre \<and> i + length pre < m_end m"
          using Cons by (simp add: me)
        then show ?thesis unfolding all by auto
      next
        case False
        then have d: "drop n ?s = drop n pre @ element a d t @ post" by simp
        have "length (drop n pre) < length pre" using pos Cons by (simp add: n_def)
        from less[OF this, of "i + n"] have
          "\<exists>m\<in>set (matchAll_from RE_XML_TRANSCRIPT (i + n) (drop n pre @ element a d t @ post)).
             (m_index m = i + n + length (drop n pre) \<and> m_text m = element a d t)
             \<or> (m_index m < i + n + length (drop n pre) \<and> i + n + length (drop n pre) < m_end m)" .
        moreover have "i + n + length (drop n pre) = i + length pre" using False by simp
        ultimately show ?thesis unfolding all d by auto
      qed
    qed
  qed
qed

lemma map_filter_if:
  "(\<forall>x\<in>set xs. g x = (if P x then Some (f x) else None)) \<Longrightarrow> List.map_filter g xs = map f (filter P xs)"
  by (induction xs) (simp_all add: map_filter_simps)

lemma entry_of_match:
  assumes "m \<in> set (matchAll RE_XML_TRANSCRIPT xml)"
  shows "entry_of lang m =
     (if m_groups m 1 \<noteq> Some [] \<and> m_groups m 2 \<noteq> Some [] then
        Some \<lparr>entry_text = decodeXmlEntities (the (m_groups m 3)),
              entry_duration = Number_multiply (parseFloat (the (m_groups m 2))) (Fin 1000),
              entry_offset = Number_multiply (parseFloat (the (m_groups m 1))) (Fin 1000),
              entry_lang = Some lang\<rparr>
      else None)"
  using xml_match_groups[OF assms] by (auto simp: entry_of_def truthy_def)

lemma parseTranscriptXml_eq:
  "parseTranscriptXml xml lang =
     (let timed = filter (\<lambda>m. m_groups m 1 \<noteq> Some [] \<and> m_groups m 2 \<noteq> Some [])
                    (matchAll RE_XML_TRANSCRIPT xml)
      in if timed = [] then Inl NoEntriesFound
         else Inr (map (\<lambda>m. \<lparr>entry_text = decodeXmlEntities (the (m_groups m 3)),
                             entry_duration = Number_multiply (parseFloat (the (m_groups m 2))) (Fin 1000),
                             entry_offset = Number_multiply (parseFloat (the (m_groups m 1))) (Fin 1000),
                             entry_lang = Some lang\<rparr>) timed))"
proof -
  have "List.map_filter (entry_of lang) (matchAll RE_XML_TRANSCRIPT xml)
      = map (\<lambda>m. \<lparr>entry_text = decodeXmlEntities (the (m_groups m 3)),
                   entry_duration = Number_multiply (parseFloat (the (m_groups m 2))) (Fin 1000),
                   entry_offset = Number_multiply (parseFloat (the (m_groups m 1))) (Fin 1000),
                   entry_lang = Some lang\<rparr>)
          (filter (\<lambda>m. m_groups m 1 \<noteq> Some [] \<and> m_groups m 2 \<noteq> Some []) (matchAll RE_XML_TRANSCRIPT xml))"
    by (rule map_filter_if) (simp add: entry_of_match)
  then show ?thesis by (simp add: parseTranscriptXml_def Let_def)
qed

text \<open>The times of an entry are computed in doubles.\<close>

lemma entry_times_examples:
  "Number_multiply (parseFloat (js ''12.5'')) (Fin 1000) = Fin 12500"
  "Number_multiply (parseFloat (js ''1.001'')) (Fin 1000) = Fin (8804889115230207 / 8796093022208)"
  "toString (Number_multiply (parseFloat (js ''1.001'')) (Fin 1000)) = js ''1000.9999999999999''"
  "Number_multiply (parseFloat (js ''abc'')) (Fin 1000) = NaN"
  by code_simp+

text \<open>
  Claim C5, as the code has it. The parser scans the input from the left for the
  element pattern and resumes where a match ends. Every match is the text of an element at
  its place in the input, the matches follow one another without overlap, and an element
  of the input is matched unless it begins inside an earlier match. For every match whose
  \<open>start\<close> and \<open>dur\<close> attributes are both non-empty, and for no other, the parser
  returns one entry, in the order of the matches: its offset is
  \<open>parseFloat(start) * 1000\<close> and its duration is \<open>parseFloat(dur) * 1000\<close>, computed
  in doubles, its text is the decoded inner text and its language is the tag the caller
  supplied; without such a match the parser throws. In a well-formed document the matches
  are the elements of the document, each once and in their order.
\<close>

theorem parseTranscriptXml_entries:
  "parseTranscriptXml xml lang =
     (let timed = filter (\<lambda>m. m_groups m 1 \<noteq> Some [] \<and> m_groups m 2 \<noteq> Some [])
                    (matchAll RE_XML_TRANSCRIPT xml)
      in if timed = [] then Inl NoEntriesFound
         else Inr (map (\<lambda>m. \<lparr>entry_text = decodeXmlEntities (the (m_groups m 3)),
                             entry_duration = Number_multiply (parseFloat (the (m_groups m 2))) (Fin 1000),
                             entry_offset = Number_multiply (parseFloat (the (m_groups m 1))) (Fin 1000),
                             entry_lang = Some lang\<rparr>) timed))
   \<and> ordered 0 (matchAll RE_XML_TRANSCRIPT xml)
   \<and> (\<forall>m\<in>set (matchAll RE_XML_TRANSCRIPT xml). element_match xml m)
   \<and> (0x22 \<notin> set s \<and> 0x22 \<notin> set d \<and> 0x3C \<notin> set t \<and> xml = pre @ element s d t @ post \<longrightarrow>
        (\<exists>m\<in>set (matchAll RE_XML_TRANSCRIPT xml).
           (m_index m = length pre \<and> m_text m = element s d t)
           \<or> (m_index m < length pre \<and> length pre < m_end m)))
   \<and> (well_formed items tail \<longrightarrow>
        map m_text (matchAll RE_XML_TRANSCRIPT (document items tail))
          = map (\<lambda>(g, s, d, t). element s d t) items
        \<and> parseTranscriptXml (document items tail) lang
          = (if filter has_times items = [] then Inl NoEntriesFound
             else Inr (map (item_entry lang) (filter has_times items))))"
proof (intro conjI impI ballI)
  show "parseTranscriptXml xml lang =
     (let timed = filter (\<lambda>m. m_groups m 1 \<noteq> Some [] \<and> m_groups m 2 \<noteq> Some [])
                    (matchAll RE_XML_TRANSCRIPT xml)
      in if timed = [] then Inl NoEntriesFound
         else Inr (map (\<lambda>m. \<lparr>entry_text = decodeXmlEntities (the (m_groups m 3)),
                             entry_duration = Number_multiply (parseFloat (the (m_groups m 2))) (Fin 1000),
                             entry_offset = Number_multiply (parseFloat (the (m_groups m 1))) (Fin 1000),
                             entry_lang = Some lang\<rparr>) timed))"
    by (rule parseTranscriptXml_eq)
  show "ordered 0 (matchAll RE_XML_TRANSCRIPT xml)"
    unfolding matchAll_def by (rule matchAll_ordered)
  show "element_match xml m" if "m \<in> set (matchAll RE_XML_TRANSCRIPT xml)" for m
    using that by (rule xml_element_match)
  show "\<exists>m\<in>set (matchAll RE_XML_TRANSCRIPT xml).
           (m_index m = length pre \<and> m_text m = element s d t)
           \<or> (m_index m < length pre \<and> length pre < m_end m)"
    if "0x22 \<notin> set s \<and> 0x22 \<notin> set d \<and> 0x3C \<notin> set t \<and> xml = pre @ element s d t @ post"
    using that xml_scan_complete[of s d t 0 pre post] by (simp add: matchAll_def)
  show "map m_text (matchAll RE_XML_TRANSCRIPT (document items tail))
          = map (\<lambda>(g, s, d, t). element s d t) items" if "well_formed items tail"
    using scan_document[OF that, of 0 lang] by (simp add: matchAll_def)
  show "parseTranscriptXml (document items tail) lang
          = (if filter has_times items = [] then Inl NoEntriesFound
             else Inr (map (item_entry lang) (filter has_times items)))" if "well_formed items tail"
    using scan_document[OF that, of 0 lang]
    by (simp add: parseTranscriptXml_def matchAll_def Let_def)
qed

theorem parseTranscriptXml_entries_witness:
  \<open>well_formed example_items example_tail
   \<and> document example_items example_tail
       = js ''<transcript><text start="0" dur="1.5">Hi</text><text start="1.5" dur="2">Let&amp;#39;s go</text></transcript>''
   \<and> parseTranscriptXml (document example_items example_tail) (js ''en'')
       = Inr [\<lparr>entry_text = js ''Hi'', entry_duration = Fin 1500, entry_offset = Fin 0,
               entry_lang = Some (js ''en'')\<rparr>,
              \<lparr>entry_text = js ''Let's go'', entry_duration = Fin 2000, entry_offset = Fin 1500,
               entry_lang = Some (js ''en'')\<rparr>]
   \<and> map m_text (matchAll RE_XML_TRANSCRIPT (document example_items example_tail))
       = [element (js ''0'') (js ''1.5'') (js ''Hi''),
          element (js ''1.5'') (js ''2'') (js ''Let&amp;#39;s go'')]
   \<and> (\<exists>m. m \<in> set (matchAll RE_XML_TRANSCRIPT (document example_items example_tail))
          \<and> element_match (document example_items example_tail) m)\<close>
proof -
  have wf: "well_formed example_items example_tail"
    by code_simp
  have doc: \<open>document example_items example_tail
       = js ''<transcript><text start="0" dur="1.5">Hi</text><text start="1.5" dur="2">Let&amp;#39;s go</text></transcript>''\<close>
    by code_simp
  have rhs: "(if filter has_times example_items = [] then Inl NoEntriesFound
              else Inr (map (item_entry (js ''en'')) (filter has_times example_items)))
       = Inr [\<lparr>entry_text = js ''Hi'', entry_duration = Fin 1500, entry_offset = Fin 0,
               entry_lang = Some (js ''en'')\<rparr>,
              \<lparr>entry_text = js ''Let's go'', entry_duration = Fin 2000, entry_offset = Fin 1500,
               entry_lang = Some (js ''en'')\<rparr>]"
    by code_simp
  have els: "map (\<lambda>(g, s, d, t). element s d t) example_items
       = [element (js ''0'') (js ''1.5'') (js ''Hi''),
          element (js ''1.5'') (js ''2'') (js ''Let&amp;#39;s go'')]"
    by (simp add: example_items_def)
  note t = parseTranscriptXml_entries[of "document example_items example_tail" "js ''en''"
      "[]" "[]" "[]" "[]" "[]" example_items example_tail]
  from t wf have x: "map m_text (matchAll RE_XML_TRANSCRIPT (document example_items example_tail))
          = map (\<lambda>(g, s, d, t). element s d t) example_items
        \<and> parseTranscriptXml (document example_items example_tail) (js ''en'')
          = (if filter has_times example_items = [] then Inl NoEntriesFound
             else Inr (map (item_entry (js ''en'')) (filter has_times example_items)))"
    by blast
  from x have p: "parseTranscriptXml (document example_items example_tail) (js ''en'')
       = Inr [\<lparr>entry_text = js ''Hi'', entry_duration = Fin 1500, entry_offset = Fin 0,
               entry_lang = Some (js ''en'')\<rparr>,
              \<lparr>entry_text = js ''Let's go'', entry_duration = Fin 2000, entry_offset = Fin 1500,
               entry_lang = Some (js ''en'')\<rparr>]"
    unfolding rhs by (rule conjunct2)
  from x have m: "map m_text (matchAll RE_XML_TRANSCRIPT (document example_items example_tail))
       = [element (js ''0'') (js ''1.5'') (js ''Hi''),
          element (js ''1.5'') (js ''2'') (js ''Let&amp;#39;s go'')]"
    unfolding els by (rule conjunct1)
  then have "matchAll RE_XML_TRANSCRIPT (document example_items example_tail) \<noteq> []"
    by auto
  then obtain m0 where "m0 \<in> set (matchAll RE_XML_TRANSCRIPT (document example_items example_tail))"
    by (cases "matchAll RE_XML_TRANSCRIPT (document example_items example_tail)") auto
  with t have "\<exists>m. m \<in> set (matchAll RE_XML_TRANSCRIPT (document example_items example_tail))
          \<and> element_match (document example_items example_tail) m"
    by blast
  with wf doc p m show ?thesis by (intro conjI)
qed

text \<open>
  Claim C5 says that every element yields an entry. The first of the two elements of
  \<open><text start="" dur="2">a</text><text start="3" dur="4">b</text>\<close> has an empty
  \<open>start\<close> attribute and yields none.
\<close>

theorem parseTranscriptXml_skips_element:
  "length (matchAll RE_XML_TRANSCRIPT two_elements) = 2
   \<and> parseTranscriptXml two_elements (js ''en'')
       = Inr [\<lparr>entry_text = js ''b'', entry_duration = Fin 4000, entry_offset = Fin 3000,
               entry_lang = Some (js ''en'')\<rparr>]"
  by code_simp

section \<open>Numeric character references\<close>

lemma bol_free_ENTITY: "bol_free ENTITY"
  by (simp add: ENTITY_def Plus_def bol_free_Str)

lemma replacer_shift: "replacer (shift_match k m) = replacer m"
proof -
  have "m_text (shift_match k m) = m_text m" "m_groups (shift_match k m) = m_groups m"
    by (simp_all add: shift_match_def)
  then show ?thesis
    unfolding replacer_def by (simp only:)
qed

lemma decode_from: "decode s = replace_from ENTITY replacer 0 s"
  by (simp add: decode_def replace_g_from)

lemma decode_from_any: "replace_from ENTITY replacer k s = decode s"
  unfolding decode_from by (rule replace_from_shift[OF bol_free_ENTITY replacer_shift])

lemma exec_at_ENTITY_other: "x \<noteq> 0x26 \<Longrightarrow> exec_at ENTITY i (x # xs) = None"
  by (simp add: exec_at_def ENTITY_def)

lemma exec_at_ENTITY_Nil: "exec_at ENTITY i [] = None"
  by (simp add: exec_at_def ENTITY_def)

lemma exec_at_ENTITY_single: "exec_at ENTITY i [x] = None"
  by (simp add: exec_at_def ENTITY_def Plus_def js_def)

lemma decode_Nil: "decode [] = []"
  unfolding decode_from by (rule replace_from_end[OF exec_at_ENTITY_Nil])

lemma decode_single: "decode [x] = [x]"
  unfolding decode_from
  by (simp only: replace_from_skip[OF exec_at_ENTITY_single] replace_from_end[OF exec_at_ENTITY_Nil])

lemma decode_plain:
  assumes "0x26 \<notin> set pre"
  shows "replace_from ENTITY replacer i (pre @ s) = pre @ replace_from ENTITY replacer (i + length pre) s"
  using assms
proof (induction pre arbitrary: i)
  case Nil
  then show ?case by simp
next
  case (Cons x pre)
  then have "x \<noteq> 0x26" and p: "0x26 \<notin> set pre" by auto
  then have "exec_at ENTITY i (x # pre @ s) = None" by (simp add: exec_at_ENTITY_other)
  then show ?case using Cons.IH[OF p, of "Suc i"] by (simp add: replace_from_skip)
qed

text \<open>The match at a decimal and at a hexadecimal reference.\<close>

lemma semicolon_not_digit: "\<not> is_digit 0x3B" "\<not> is_hex 0x3B" "\<not> is_digit 0x78"
  by (simp_all add: is_digit_def is_hex_def in_range_def)

lemma decimal_text: "js ''&#'' @ ds @ js '';'' @ post = 0x26 # 0x23 # ds @ 0x3B # post"
  by (simp add: js_def)

lemma hex_text: "js ''&#x'' @ hs @ js '';'' @ post = 0x26 # 0x23 # 0x78 # hs @ 0x3B # post"
  by (simp add: js_def)

lemma ENTITY_unfold:
  "run ENTITY (i, 0x26 # s, c)
     = run (Seq (Seq (Lit 0x23) (Grp 1 (Plus is_digit))) (Seq (Lit 0x3B) Eps)) (Suc i, s, c)
       @ run (Seq (Seq (Str (js ''#x'')) (Grp 2 (Plus is_hex))) (Seq (Lit 0x3B) Eps)) (Suc i, s, c)
       @ run (Seq (Grp 3 (Plus is_word)) (Seq (Lit 0x3B) Eps)) (Suc i, s, c)"
  unfolding ENTITY_def seqs.simps
  by (simp only: run_Seq_Lit run_Seq_Alt append_assoc)

lemma run_ENTITY_decimal:
  assumes "ds \<noteq> []" and "list_all is_digit ds"
  shows "\<exists>rest. run ENTITY (i, js ''&#'' @ ds @ js '';'' @ post, c)
           = (i + length ds + 3, post, c(1 \<mapsto> ds)) # rest"
proof -
  have ds: "\<forall>x\<in>set ds. is_digit x" using assms(2) by (simp add: list_all_iff)
  have "run (Seq (Grp 1 (Plus is_digit)) (Seq (Lit 0x3B) Eps)) (Suc (Suc i), ds @ 0x3B # post, c)
          = run (Seq (Lit 0x3B) Eps) (Suc (Suc i) + length ds, 0x3B # post, c(1 \<mapsto> ds))"
  proof (rule run_grp_plus_cont[OF ds assms(1)])
    show "0x3B # post = [] \<or> \<not> is_digit (hd (0x3B # post))" by (simp add: semicolon_not_digit)
    show "\<And>j x xs c'. is_digit x \<Longrightarrow> run (Seq (Lit 0x3B) Eps) (j, x # xs, c') = []"
      using semicolon_not_digit by auto
  qed
  then have "run (Seq (Seq (Lit 0x23) (Grp 1 (Plus is_digit))) (Seq (Lit 0x3B) Eps))
               (Suc i, 0x23 # ds @ 0x3B # post, c)
          = [(i + length ds + 3, post, c(1 \<mapsto> ds))]"
    by (simp only: run_Seq_assoc run_Seq_Lit) simp
  then show ?thesis
    by (simp only: decimal_text ENTITY_unfold) simp
qed

lemma run_ENTITY_hex:
  assumes "hs \<noteq> []" and "list_all is_hex hs"
  shows "\<exists>rest. run ENTITY (i, js ''&#x'' @ hs @ js '';'' @ post, c)
           = (i + length hs + 4, post, c(2 \<mapsto> hs)) # rest"
proof -
  have hs: "\<forall>x\<in>set hs. is_hex x" using assms(2) by (simp add: list_all_iff)
  have "run (Seq (Grp 2 (Plus is_hex)) (Seq (Lit 0x3B) Eps)) (Suc (Suc (Suc i)), hs @ 0x3B # post, c)
          = run (Seq (Lit 0x3B) Eps) (Suc (Suc (Suc i)) + length hs, 0x3B # post, c(2 \<mapsto> hs))"
  proof (rule run_grp_plus_cont[OF hs assms(1)])
    show "0x3B # post = [] \<or> \<not> is_hex (hd (0x3B # post))" by (simp add: semicolon_not_digit)
    show "\<And>j x xs c'. is_hex x \<Longrightarrow> run (Seq (Lit 0x3B) Eps) (j, x # xs, c') = []"
      using semicolon_not_digit by auto
  qed
  moreover have "js ''#x'' = [0x23, 0x78]" by (simp add: js_def)
  ultimately have h: "run (Seq (Seq (Str (js ''#x'')) (Grp 2 (Plus is_hex))) (Seq (Lit 0x3B) Eps))
               (Suc i, 0x23 # 0x78 # hs @ 0x3B # post, c)
          = [(i + length hs + 4, post, c(2 \<mapsto> hs))]"
    by (simp only: run_Seq_assoc Str.simps run_Seq_Lit) simp
  have "run (Seq (Grp 1 (Plus is_digit)) (Seq (Lit 0x3B) Eps)) (Suc (Suc i), 0x78 # hs @ 0x3B # post, c) = []"
    by (rule run_grp_plus_fail) (simp add: semicolon_not_digit)
  then have d: "run (Seq (Seq (Lit 0x23) (Grp 1 (Plus is_digit))) (Seq (Lit 0x3B) Eps))
               (Suc i, 0x23 # 0x78 # hs @ 0x3B # post, c) = []"
    by (simp only: run_Seq_assoc run_Seq_Lit)
  show ?thesis
    by (simp only: hex_text ENTITY_unfold h d) simp
qed

lemma exec_at_ENTITY_decimal:
  assumes "ds \<noteq> []" and "list_all is_digit ds"
  shows "\<exists>m. exec_at ENTITY i (js ''&#'' @ ds @ js '';'' @ post) = Some m
           \<and> m_end m = i + (length ds + 3) \<and> m_groups m = [1 \<mapsto> ds]"
  using run_ENTITY_decimal[OF assms, of i post Map.empty]
  by (auto simp: exec_at_def)

lemma exec_at_ENTITY_hex:
  assumes "hs \<noteq> []" and "list_all is_hex hs"
  shows "\<exists>m. exec_at ENTITY i (js ''&#x'' @ hs @ js '';'' @ post) = Some m
           \<and> m_end m = i + (length hs + 4) \<and> m_groups m = [2 \<mapsto> hs]"
  using run_ENTITY_hex[OF assms, of i post Map.empty]
  by (auto simp: exec_at_def)

lemma decode_decimal:
  assumes "0x26 \<notin> set pre" and "ds \<noteq> []" and "list_all is_digit ds"
  shows "decode (pre @ js ''&#'' @ ds @ js '';'' @ post)
           = pre @ fromCharCode (parseInt ds 10) @ decode post"
proof -
  let ?ref = "js ''&#'' @ ds @ js '';''"
  obtain m where m: "exec_at ENTITY (length pre) (?ref @ post) = Some m"
    and e: "m_end m = length pre + (length ds + 3)" and g: "m_groups m = [1 \<mapsto> ds]"
    using exec_at_ENTITY_decimal[OF assms(2,3), of "length pre" post] by auto
  have r: "replacer m = fromCharCode (parseInt ds 10)"
    using assms(2) by (simp add: replacer_def g truthy_def)
  have l: "length ds + 3 = length ?ref" by simp
  have "decode (pre @ ?ref @ post) = pre @ replace_from ENTITY replacer (length pre) (?ref @ post)"
    unfolding decode_from using decode_plain[OF assms(1), of 0] by simp
  also have "replace_from ENTITY replacer (length pre) (?ref @ post)
      = replacer m @ replace_from ENTITY replacer (length pre + (length ds + 3)) (drop (length ds + 3) (?ref @ post))"
    by (rule replace_from_hit[OF m e]) (simp_all add: decimal_text)
  also have "drop (length ds + 3) (?ref @ post) = post"
    unfolding l by simp
  finally show ?thesis
    by (simp add: r decode_from_any)
qed

lemma decode_hex:
  assumes "0x26 \<notin> set pre" and "hs \<noteq> []" and "list_all is_hex hs"
  shows "decode (pre @ js ''&#x'' @ hs @ js '';'' @ post)
           = pre @ fromCharCode (parseInt hs 16) @ decode post"
proof -
  let ?ref = "js ''&#x'' @ hs @ js '';''"
  obtain m where m: "exec_at ENTITY (length pre) (?ref @ post) = Some m"
    and e: "m_end m = length pre + (length hs + 4)" and g: "m_groups m = [2 \<mapsto> hs]"
    using exec_at_ENTITY_hex[OF assms(2,3), of "length pre" post] by auto
  have r: "replacer m = fromCharCode (parseInt hs 16)"
    using assms(2) by (simp add: replacer_def g truthy_def)
  have l: "length hs + 4 = length ?ref" by simp
  have "decode (pre @ ?ref @ post) = pre @ replace_from ENTITY replacer (length pre) (?ref @ post)"
    unfolding decode_from using decode_plain[OF assms(1), of 0] by simp
  also have "replace_from ENTITY replacer (length pre) (?ref @ post)
      = replacer m @ replace_from ENTITY replacer (length pre + (length hs + 4)) (drop (length hs + 4) (?ref @ post))"
    by (rule replace_from_hit[OF m e]) (simp_all add: hex_text)
  also have "drop (length hs + 4) (?ref @ post) = post"
    unfolding l by simp
  finally show ?thesis
    by (simp add: r decode_from_any)
qed

lemma is_digit_hex: "is_digit c \<Longrightarrow> is_hex c"
  by (simp add: is_digit_def is_hex_def)

lemma digit_value_nonneg: "is_hex c \<Longrightarrow> 0 \<le> digit_value c"
  by (auto simp: digit_value_def is_hex_def in_range_def word_le_def)

lemma radix_value_nonneg:
  assumes "0 \<le> radix" and "\<forall>c\<in>set s. is_hex c"
  shows "0 \<le> radix_value radix s"
proof -
  have "0 \<le> acc \<Longrightarrow> \<forall>c\<in>set s. is_hex c \<Longrightarrow> 0 \<le> foldl (\<lambda>acc c. acc * radix + digit_value c) acc s" for acc
  proof (induction s arbitrary: acc)
    case Nil
    then show ?case by simp
  next
    case (Cons c s)
    have "0 \<le> acc * radix + digit_value c"
      using Cons.prems assms(1) digit_value_nonneg[of c] by simp
    then show ?case using Cons.IH Cons.prems(2) by simp
  qed
  then show ?thesis using assms(2) by (simp add: radix_value_def)
qed

lemma fromCharCode_exact:
  "n < 2 ^ 53 \<Longrightarrow> fromCharCode (to_number n) = [word_of_int n]"
  by (simp add: fromCharCode_def to_number_def)

lemma code_unit_value:
  assumes "0 \<le> v"
  shows "uint (word_of_int v :: cu) = v mod 2 ^ 16 \<and> ((uint (word_of_int v :: cu) = v) = (v \<le> 0xFFFF))"
proof -
  have u: "uint (word_of_int v :: cu) = v mod 2 ^ 16"
    by (simp add: uint_word_of_int)
  have "(v mod 65536 = v) = (v \<le> 65535)"
  proof (cases "v < 65536")
    case True
    then show ?thesis using assms by simp
  next
    case False
    moreover have "v mod 65536 < 65536" by simp
    ultimately show ?thesis by linarith
  qed
  then show ?thesis using u by simp
qed

text \<open>An ampersand ends every match that began before it.\<close>

lemma greedy_barrier:
  "\<not> C q \<Longrightarrow> greedy C i (u @ q # s) c = map (extend (q # s)) (greedy C i u c)"
  by (induction u arbitrary: i) (simp_all add: extend_def)

lemma lazy_barrier:
  "\<not> C q \<Longrightarrow> lazy C i (u @ q # s) c = map (extend (q # s)) (lazy C i u c)"
  by (induction u arbitrary: i) (simp_all add: extend_def)

lemma run_barrier:
  "avoids q r \<Longrightarrow> run r (i, u @ q # s, c) = map (extend (q # s)) (run r (i, u, c))"
proof (induction r arbitrary: i u c)
  case Eps
  then show ?case by (simp add: extend_def)
next
  case (Lit a)
  then show ?case by (cases u) (simp_all add: extend_def)
next
  case (Cls C)
  then show ?case by (cases u) (simp_all add: extend_def)
next
  case (Seq r1 r2)
  from Seq.prems have a: "avoids q r1" "avoids q r2" by simp_all
  have "run r2 (extend (q # s) st) = map (extend (q # s)) (run r2 st)" for st
    by (cases st) (simp add: extend_def Seq.IH(2)[OF a(2)])
  then have "concat (map (run r2) (map (extend (q # s)) xs))
      = map (extend (q # s)) (concat (map (run r2) xs))" for xs
    by (induction xs) simp_all
  then show ?case by (simp add: Seq.IH(1)[OF a(1)])
next
  case (Alt r1 r2)
  then show ?case by simp
next
  case (Opt r)
  then show ?case by (simp add: extend_def)
next
  case (Star C)
  then show ?case by (simp add: greedy_barrier)
next
  case (LazyStar C)
  then show ?case by (simp add: lazy_barrier)
next
  case (Grp k r)
  from Grp.prems have a: "avoids q r" by simp
  have "(\<lambda>(j, s', c'). (j, s', c'(k \<mapsto> take (j - i) (u @ q # s)))) (extend (q # s) st)
      = extend (q # s) ((\<lambda>(j, s', c'). (j, s', c'(k \<mapsto> take (j - i) u))) st)"
    if "st \<in> set (run r (i, u, c))" for st
  proof -
    obtain j s' c' where st: "st = (j, s', c')" by (cases st)
    with that run_bounds[of j s' c' r i u c] have "j - i \<le> length u" by simp
    then show ?thesis by (simp add: st extend_def)
  qed
  then have "map ((\<lambda>(j, s', c'). (j, s', c'(k \<mapsto> take (j - i) (u @ q # s)))) \<circ> extend (q # s)) (run r (i, u, c))
      = map (extend (q # s) \<circ> (\<lambda>(j, s', c'). (j, s', c'(k \<mapsto> take (j - i) u)))) (run r (i, u, c))"
    by (intro map_cong) simp_all
  then show ?case by (simp add: Grp.IH[OF a])
next
  case Bol
  then show ?case by (simp add: extend_def)
next
  case Eol
  then show ?case by simp
qed

lemma avoids_Str: "q \<notin> set p \<Longrightarrow> avoids q (Str p)"
  by (induction p) auto

lemma ENTITY_tail: "ENTITY = Seq (Lit 0x26) ENTITY_tail"
  by (simp add: ENTITY_def ENTITY_tail_def)

lemma avoids_ENTITY_tail: "avoids 0x26 ENTITY_tail"
  by (simp add: ENTITY_tail_def Plus_def avoids_Str js_def is_digit_def is_hex_def is_word_def in_range_def)

lemma exec_at_ENTITY_barrier:
  assumes "u \<noteq> []"
  shows "exec_at ENTITY i (u @ 0x26 # s) = exec_at ENTITY i u"
proof -
  from assms obtain x u' where u: "u = x # u'" by (cases u) auto
  show ?thesis
  proof (cases "x = 0x26")
    case False
    then show ?thesis by (simp add: u exec_at_ENTITY_other)
  next
    case True
    have r: "run ENTITY (i, u @ 0x26 # s, Map.empty)
        = map (extend (0x26 # s)) (run ENTITY (i, u, Map.empty))"
      unfolding ENTITY_tail u True
      using run_barrier[OF avoids_ENTITY_tail, of "Suc i" u' s Map.empty] by simp
    show ?thesis
    proof (cases "run ENTITY (i, u, Map.empty)")
      case Nil
      then show ?thesis by (simp add: exec_at_def r)
    next
      case (Cons st sts)
      obtain j s' c' where st: "st = (j, s', c')" by (cases st)
      have "(j, s', c') \<in> set (run ENTITY (i, u, Map.empty))" by (simp add: Cons st)
      from run_bounds[OF this] have "j - i \<le> length u" by simp
      then show ?thesis by (simp add: exec_at_def r Cons st extend_def)
    qed
  qed
qed

lemma exec_at_ENTITY_nonempty:
  assumes "exec_at ENTITY i s = Some m"
  shows "i < m_end m"
proof -
  from assms obtain j s' c' rest where r: "run ENTITY (i, s, Map.empty) = (j, s', c') # rest"
    and m: "m_end m = j"
    by (auto simp: exec_at_def split: list.splits)
  then have "(j, s', c') \<in> set (run (Seq (Lit 0x26) ENTITY_tail) (i, s, Map.empty))"
    by (simp add: ENTITY_tail)
  then obtain t where "(j, s', c') \<in> set (run ENTITY_tail (Suc i, t, Map.empty))"
    by (cases s) (auto split: if_splits)
  from run_bounds[OF this] m show ?thesis by simp
qed

lemma replace_from_barrier:
  "replace_from ENTITY replacer i (pre @ 0x26 # s)
     = replace_from ENTITY replacer i pre @ replace_from ENTITY replacer (i + length pre) (0x26 # s)"
proof (induction "length pre" arbitrary: pre i rule: less_induct)
  case less
  show ?case
  proof (cases pre)
    case Nil
    then show ?thesis by (simp add: replace_from_end[OF exec_at_ENTITY_Nil])
  next
    case (Cons x pre')
    then have ne: "pre \<noteq> []" by simp
    note e = exec_at_ENTITY_barrier[OF ne, of i s]
    show ?thesis
    proof (cases "exec_at ENTITY i pre")
      case None
      have "replace_from ENTITY replacer i (pre @ 0x26 # s)
          = x # replace_from ENTITY replacer (Suc i) (pre' @ 0x26 # s)"
        using replace_from_skip[of ENTITY i x "pre' @ 0x26 # s" replacer] e None Cons by simp
      moreover have "replace_from ENTITY replacer i pre = x # replace_from ENTITY replacer (Suc i) pre'"
        using replace_from_skip[of ENTITY i x pre' replacer] None Cons by simp
      moreover have "replace_from ENTITY replacer (Suc i) (pre' @ 0x26 # s)
          = replace_from ENTITY replacer (Suc i) pre' @ replace_from ENTITY replacer (Suc i + length pre') (0x26 # s)"
        by (rule less) (simp add: Cons)
      ultimately show ?thesis by (simp add: Cons)
    next
      case (Some m)
      define n where "n = m_end m - i"
      from exec_at_ENTITY_nonempty[OF Some] have n0: "0 < n" and me: "m_end m = i + n"
        by (simp_all add: n_def)
      from exec_at_bounds[OF Some] have nl: "n \<le> length pre" by (simp add: n_def)
      have s1: "pre @ 0x26 # s \<noteq> []" by simp
      have l: "replace_from ENTITY replacer i (pre @ 0x26 # s)
          = replacer m @ replace_from ENTITY replacer (i + n) (drop n pre @ 0x26 # s)"
        using replace_from_hit[OF _ me n0 s1, of ENTITY replacer] e Some nl by simp
      have r: "replace_from ENTITY replacer i pre
          = replacer m @ replace_from ENTITY replacer (i + n) (drop n pre)"
        by (rule replace_from_hit[OF Some me n0 ne])
      have "length (drop n pre) < length pre" using n0 ne by simp
      from less[OF this, of "i + n"] have
        "replace_from ENTITY replacer (i + n) (drop n pre @ 0x26 # s)
          = replace_from ENTITY replacer (i + n) (drop n pre)
            @ replace_from ENTITY replacer (i + n + length (drop n pre)) (0x26 # s)" .
      moreover have "i + n + length (drop n pre) = i + length pre" using nl by simp
      ultimately show ?thesis by (simp add: l r)
    qed
  qed
qed

lemma decode_barrier: "decode (pre @ 0x26 # s) = decode pre @ decode (0x26 # s)"
proof -
  have "decode (pre @ 0x26 # s)
      = replace_from ENTITY replacer 0 pre @ replace_from ENTITY replacer (0 + length pre) (0x26 # s)"
    unfolding decode_from by (rule replace_from_barrier)
  then show ?thesis by (simp only: decode_from_any decode_from[symmetric])
qed

lemma decode_decimal_anywhere:
  assumes "ds \<noteq> []" and "list_all is_digit ds"
  shows "decode (pre @ js ''&#'' @ ds @ js '';'' @ post)
           = decode pre @ fromCharCode (parseInt ds 10) @ decode post"
proof -
  have "decode (pre @ 0x26 # 0x23 # ds @ 0x3B # post) = decode pre @ decode (0x26 # 0x23 # ds @ 0x3B # post)"
    by (rule decode_barrier)
  moreover have "decode ([] @ js ''&#'' @ ds @ js '';'' @ post) = [] @ fromCharCode (parseInt ds 10) @ decode post"
    by (rule decode_decimal[OF _ assms]) simp
  ultimately show ?thesis by (simp add: decimal_text)
qed

lemma decode_hex_anywhere:
  assumes "hs \<noteq> []" and "list_all is_hex hs"
  shows "decode (pre @ js ''&#x'' @ hs @ js '';'' @ post)
           = decode pre @ fromCharCode (parseInt hs 16) @ decode post"
proof -
  have "decode (pre @ 0x26 # 0x23 # 0x78 # hs @ 0x3B # post) = decode pre @ decode (0x26 # 0x23 # 0x78 # hs @ 0x3B # post)"
    by (rule decode_barrier)
  moreover have "decode ([] @ js ''&#x'' @ hs @ js '';'' @ post) = [] @ fromCharCode (parseInt hs 16) @ decode post"
    by (rule decode_hex[OF _ assms]) simp
  ultimately show ?thesis by (simp add: hex_text)
qed

text \<open>
  Claim C10, as the code has it. One pass of the decoder replaces a decimal reference
  \<open>&#ds;\<close> by the single code unit \<open>String.fromCharCode(parseInt(ds, 10))\<close> and a
  hexadecimal reference \<open>&#xhs;\<close> by \<open>String.fromCharCode(parseInt(hs, 16))\<close>, wherever
  the reference stands: what precedes it and what follows it are decoded on their own.
  The decoder is the pass applied twice, so the second pass reads the code unit again,
  next to what the first pass has left around it: \<open>&#38;lt;\<close> becomes \<open>&lt;\<close> and then
  \<open><\<close>. The decoder maps a string that is one reference to its code unit. When the value
  of the reference is below \<open>2^53\<close> the code unit is the value modulo \<open>2^16\<close>; so it is
  the referenced character exactly when the value is at most \<open>0xFFFF\<close>.
\<close>

theorem decode_numeric_reference:
  assumes "ds \<noteq> []" and "list_all is_digit ds" and "hs \<noteq> []" and "list_all is_hex hs"
  shows "decode (pre @ js ''&#'' @ ds @ js '';'' @ post)
           = decode pre @ fromCharCode (parseInt ds 10) @ decode post
       \<and> decode (pre @ js ''&#x'' @ hs @ js '';'' @ post)
           = decode pre @ fromCharCode (parseInt hs 16) @ decode post
       \<and> decodeXmlEntities (pre @ js ''&#'' @ ds @ js '';'' @ post)
           = decode (decode pre @ fromCharCode (parseInt ds 10) @ decode post)
       \<and> decodeXmlEntities (pre @ js ''&#x'' @ hs @ js '';'' @ post)
           = decode (decode pre @ fromCharCode (parseInt hs 16) @ decode post)
       \<and> decode (js ''&#38;lt;'') = js ''&lt;'' \<and> decodeXmlEntities (js ''&#38;lt;'') = js ''<''
       \<and> decodeXmlEntities (js ''&#'' @ ds @ js '';'') = fromCharCode (parseInt ds 10)
       \<and> decodeXmlEntities (js ''&#x'' @ hs @ js '';'') = fromCharCode (parseInt hs 16)
       \<and> length (fromCharCode (parseInt ds 10)) = 1 \<and> length (fromCharCode (parseInt hs 16)) = 1
       \<and> (radix_value 10 ds < 2 ^ 53 \<longrightarrow>
            fromCharCode (parseInt ds 10) = [word_of_int (radix_value 10 ds)])
       \<and> (radix_value 16 hs < 2 ^ 53 \<longrightarrow>
            fromCharCode (parseInt hs 16) = [word_of_int (radix_value 16 hs)])
       \<and> 0 \<le> radix_value 10 ds \<and> 0 \<le> radix_value 16 hs
       \<and> (0 \<le> v \<longrightarrow> uint (word_of_int v :: cu) = v mod 2 ^ 16
              \<and> ((uint (word_of_int v :: cu) = v) = (v \<le> 0xFFFF)))"
proof -
  have one: "length (fromCharCode x) = 1" for x
    by (cases x) (simp_all add: fromCharCode_def)
  then obtain a b where a: "fromCharCode (parseInt ds 10) = [a]" and b: "fromCharCode (parseInt hs 16) = [b]"
    by (metis One_nat_def length_0_conv length_Suc_conv)
  note dd = decode_decimal_anywhere[OF assms(1,2)] and dh = decode_hex_anywhere[OF assms(3,4)]
  have xd: "decodeXmlEntities (pre @ js ''&#'' @ ds @ js '';'' @ post)
           = decode (decode pre @ fromCharCode (parseInt ds 10) @ decode post)"
    unfolding decodeXmlEntities_def dd ..
  have xh: "decodeXmlEntities (pre @ js ''&#x'' @ hs @ js '';'' @ post)
           = decode (decode pre @ fromCharCode (parseInt hs 16) @ decode post)"
    unfolding decodeXmlEntities_def dh ..
  have tw: "decode (js ''&#38;lt;'') = js ''&lt;''" "decodeXmlEntities (js ''&#38;lt;'') = js ''<''"
    by code_simp+
  have d1: "decode (js ''&#'' @ ds @ js '';'') = fromCharCode (parseInt ds 10)"
    using decode_decimal[of "[]" ds "[]", OF _ assms(1,2)] by (simp add: decode_Nil)
  have h1: "decode (js ''&#x'' @ hs @ js '';'') = fromCharCode (parseInt hs 16)"
    using decode_hex[of "[]" hs "[]", OF _ assms(3,4)] by (simp add: decode_Nil)
  have d2: "decodeXmlEntities (js ''&#'' @ ds @ js '';'') = fromCharCode (parseInt ds 10)"
    unfolding decodeXmlEntities_def d1 a by (rule decode_single)
  have h2: "decodeXmlEntities (js ''&#x'' @ hs @ js '';'') = fromCharCode (parseInt hs 16)"
    unfolding decodeXmlEntities_def h1 b by (rule decode_single)
  have e10: "radix_value 10 ds < 2 ^ 53 \<longrightarrow>
            fromCharCode (parseInt ds 10) = [word_of_int (radix_value 10 ds)]"
    and e16: "radix_value 16 hs < 2 ^ 53 \<longrightarrow>
            fromCharCode (parseInt hs 16) = [word_of_int (radix_value 16 hs)]"
    by (simp_all add: parseInt_def fromCharCode_exact)
  have n10: "0 \<le> radix_value 10 ds"
    by (rule radix_value_nonneg) (use assms(2) in \<open>auto simp: list_all_iff is_digit_hex\<close>)
  have n16: "0 \<le> radix_value 16 hs"
    by (rule radix_value_nonneg) (use assms(4) in \<open>auto simp: list_all_iff\<close>)
  have cu: "0 \<le> v \<longrightarrow> uint (word_of_int v :: cu) = v mod 2 ^ 16
              \<and> ((uint (word_of_int v :: cu) = v) = (v \<le> 0xFFFF))"
    using code_unit_value[of v] by blast
  show ?thesis
    by (intro conjI dd dh xd xh tw d2 h2 one e10 e16 n10 n16 cu)
qed

text \<open>
  The reference \<open>&#128512;\<close> to a character of a supplementary plane, and its hexadecimal
  form, decode to the single code unit \<open>0xF600\<close>, also after a text that holds an
  ampersand.
\<close>

theorem decode_numeric_reference_witness:
  "js ''128512'' \<noteq> [] \<and> list_all is_digit (js ''128512'')
   \<and> js ''1F600'' \<noteq> [] \<and> list_all is_hex (js ''1F600'')
   \<and> decode (js ''Q&amp;A '' @ js ''&#'' @ js ''128512'' @ js '';'' @ js ''!'') = js ''Q&A '' @ [0xF600] @ js ''!''
   \<and> decodeXmlEntities (js ''&#x'' @ js ''1F600'' @ js '';'') = [0xF600]
   \<and> radix_value 10 (js ''128512'') < 2 ^ 53
   \<and> fromCharCode (parseInt (js ''128512'') 10) = [word_of_int (radix_value 10 (js ''128512''))]"
proof -
  have h: "js ''128512'' \<noteq> []" "list_all is_digit (js ''128512'')"
    "js ''1F600'' \<noteq> []" "list_all is_hex (js ''1F600'')"
    by code_simp+
  have v: "fromCharCode (parseInt (js ''128512'') 10) = [0xF600]"
    "fromCharCode (parseInt (js ''1F600'') 16) = [0xF600]" "decode (js ''!'') = js ''!''"
    "decode (js ''Q&amp;A '') = js ''Q&A ''"
    by code_simp+
  have b: "radix_value 10 (js ''128512'') < 2 ^ 53"
    by code_simp
  note t = decode_numeric_reference[OF h, of "js ''Q&amp;A ''" "js ''!''" 0]
  from t have "decode (js ''Q&amp;A '' @ js ''&#'' @ js ''128512'' @ js '';'' @ js ''!'')
      = decode (js ''Q&amp;A '') @ fromCharCode (parseInt (js ''128512'') 10) @ decode (js ''!'')"
    by (rule conjunct1)
  then have 1: "decode (js ''Q&amp;A '' @ js ''&#'' @ js ''128512'' @ js '';'' @ js ''!'') = js ''Q&A '' @ [0xF600] @ js ''!''"
    unfolding v .
  from t have "decodeXmlEntities (js ''&#x'' @ js ''1F600'' @ js '';'')
      = fromCharCode (parseInt (js ''1F600'') 16)"
    by blast
  then have 2: "decodeXmlEntities (js ''&#x'' @ js ''1F600'' @ js '';'') = [0xF600]"
    unfolding v .
  from t b have 3: "fromCharCode (parseInt (js ''128512'') 10) = [word_of_int (radix_value 10 (js ''128512''))]"
    by blast
  from h 1 2 b 3 show ?thesis by (intro conjI)
qed

text \<open>
  Claim C10 says that the code unit is the value modulo \<open>2^16\<close> for every reference.
  \<open>parseInt\<close> returns a double: the value \<open>2^53 + 1\<close> of \<open>&#9007199254740993;\<close> is
  rounded to \<open>2^53\<close>, and the decoder yields the code unit 0 where the value modulo
  \<open>2^16\<close> is 1.
\<close>

theorem decode_beyond_exact_integers:
  "radix_value 10 (js ''9007199254740993'') = 9007199254740993
   \<and> (word_of_int 9007199254740993 :: cu) = 1
   \<and> decodeXmlEntities (js ''&#9007199254740993;'') = [0]"
  by code_simp

section \<open>Timestamps\<close>

































section \<open>The fragment\<close>

lemma join_Cons: "join sep (x # xs) = x @ concat (map (\<lambda>y. sep @ y) xs)"
  by (induction xs arbitrary: x) simp_all

lemma formatTranscript_eq:
  "formatTranscript entries options =
     js ''\<newline>'' @ sectionHeading options @ js ''\<newline>\<newline>'' @
     (if includeTimestamps options
      then join (js ''\<newline>'')
             (map (\<lambda>e. js ''['' @ formatTimestamp (entry_offset e) @ js ''] '' @ entry_text e) entries)
      else join (js '' '') (map entry_text entries))"
  by (simp add: formatTranscript_def)

lemma formatTranscript_plain:
  "formatTranscript scenario_entries \<lparr>includeTimestamps = False, sectionHeading = js ''## Transcript''\<rparr>
     = js ''\<newline>## Transcript\<newline>\<newline>We're no strangers to love''"
  by (simp add: formatTranscript_def scenario_entries_def js_def)

lemma formatTranscript_stamped:
  "formatTranscript scenario_entries \<lparr>includeTimestamps = True, sectionHeading = js ''## Transcript''\<rparr>
     = js ''\<newline>## Transcript\<newline>\<newline>[0:00] We're no strangers\<newline>[0:02] to love''"
  by code_simp

text \<open>
  Claim C7. For every entry sequence and options, \<open>formatTranscript\<close> gives a line break,
  the section heading, two line breaks, and then either one line \<open>[timestamp] text\<close> per
  entry, the lines joined by line breaks, when \<open>includeTimestamps\<close> is set, or else the
  texts of the entries joined by single spaces; \<open>join\<close> puts the separator before every
  element but the first. For the two entries of the scenario and the heading
  \<open>## Transcript\<close> the fragment is as the specification gives it, without and with
  timestamps.
\<close>

theorem formatTranscript_fragment:
  "formatTranscript entries options =
     js ''\<newline>'' @ sectionHeading options @ js ''\<newline>\<newline>'' @
     (if includeTimestamps options
      then join (js ''\<newline>'')
             (map (\<lambda>e. js ''['' @ formatTimestamp (entry_offset e) @ js ''] '' @ entry_text e) entries)
      else join (js '' '') (map entry_text entries))
   \<and> join sep (x # xs) = x @ concat (map (\<lambda>y. sep @ y) xs)
   \<and> formatTranscript scenario_entries \<lparr>includeTimestamps = False, sectionHeading = js ''## Transcript''\<rparr>
       = js ''\<newline>## Transcript\<newline>\<newline>We're no strangers to love''
   \<and> formatTranscript scenario_entries \<lparr>includeTimestamps = True, sectionHeading = js ''## Transcript''\<rparr>
       = js ''\<newline>## Transcript\<newline>\<newline>[0:00] We're no strangers\<newline>[0:02] to love''"
  by (intro conjI formatTranscript_eq join_Cons formatTranscript_plain formatTranscript_stamped)

section \<open>Selecting the track\<close>

lemma startsWith_prefix: "startsWith s p = prefix p s"
  by (induction s p rule: startsWith.induct) auto

lemma split_hd: "\<exists>ps. split sep s = takeWhile (\<lambda>c. c \<noteq> sep) s # ps"
  by (induction s) (auto split: list.splits)

lemma baseLang_takeWhile: "baseLang lang = takeWhile (\<lambda>c. c \<noteq> 0x2D) lang"
  using split_hd[where sep="0x2D" and s=lang] by (auto simp: baseLang_def)

lemma find_first_with: "find P xs = Some t \<Longrightarrow> first_with P xs t"
  by (auto simp: find_Some_iff first_with_def)

lemma find_None_set: "(find P xs = None) = (\<not> (\<exists>x\<in>set xs. P x))"
  by (auto simp: find_None_iff)

text \<open>
  Claim C8. For a list of caption tracks that is not empty, \<open>selectTrack\<close> does not throw.
  It returns the first track whose language code equals the preferred code when there is
  one; else the first track whose language code starts with the base language, the part of
  the preferred code before its first hyphen, when there is one; else the first track of
  the list.
\<close>

theorem selectTrack_tiers:
  assumes "tracks \<noteq> []"
  shows "\<exists>t. selectTrack tracks lang = Inr t \<and>
     (if \<exists>x\<in>set tracks. languageCode x = lang
      then first_with (\<lambda>x. languageCode x = lang) tracks t
      else if \<exists>x\<in>set tracks. prefix (takeWhile (\<lambda>c. c \<noteq> 0x2D) lang) (languageCode x)
      then first_with (\<lambda>x. prefix (takeWhile (\<lambda>c. c \<noteq> 0x2D) lang) (languageCode x)) tracks t
      else t = hd tracks)"
proof (cases "find (\<lambda>t. languageCode t = lang) tracks")
  case (Some t)
  then have "\<exists>x\<in>set tracks. languageCode x = lang"
    using find_None_set[of "\<lambda>t. languageCode t = lang" tracks] by simp
  moreover have "selectTrack tracks lang = Inr t"
    using Some by (simp add: selectTrack_def)
  ultimately show ?thesis
    using find_first_with[OF Some] by auto
next
  case None
  then have no: "\<not> (\<exists>x\<in>set tracks. languageCode x = lang)"
    by (simp add: find_None_set)
  let ?Q = "\<lambda>x. prefix (takeWhile (\<lambda>c. c \<noteq> 0x2D) lang) (languageCode x)"
  have Q: "(\<lambda>t. startsWith (languageCode t) (baseLang lang)) = ?Q"
    by (simp add: startsWith_prefix baseLang_takeWhile)
  show ?thesis
  proof (cases "find ?Q tracks")
    case (Some t)
    then have "\<exists>x\<in>set tracks. ?Q x"
      using find_None_set[of ?Q tracks] by simp
    moreover have "selectTrack tracks lang = Inr t"
      using None Some by (simp add: selectTrack_def Q)
    ultimately show ?thesis
      using no find_first_with[OF Some] by auto
  next
    case None2: None
    then have "\<not> (\<exists>x\<in>set tracks. ?Q x)"
      by (simp add: find_None_set)
    moreover have "selectTrack tracks lang = Inr (hd tracks)"
      using None None2 assms by (cases tracks) (simp_all add: selectTrack_def Q)
    ultimately show ?thesis
      using no by auto
  qed
qed

theorem selectTrack_tiers_witness:
  "[track ''de'', track ''en-GB'', track ''en''] \<noteq> [] \<and>
   selectTrack [track ''de'', track ''en-GB'', track ''en''] (js ''en-US'') = Inr (track ''en-GB'') \<and>
   (\<exists>t. selectTrack [track ''de'', track ''en-GB'', track ''en''] (js ''en-US'') = Inr t \<and>
     (if \<exists>x\<in>set [track ''de'', track ''en-GB'', track ''en'']. languageCode x = js ''en-US''
      then first_with (\<lambda>x. languageCode x = js ''en-US'') [track ''de'', track ''en-GB'', track ''en''] t
      else if \<exists>x\<in>set [track ''de'', track ''en-GB'', track ''en''].
                prefix (takeWhile (\<lambda>c. c \<noteq> 0x2D) (js ''en-US'')) (languageCode x)
      then first_with (\<lambda>x. prefix (takeWhile (\<lambda>c. c \<noteq> 0x2D) (js ''en-US'')) (languageCode x))
             [track ''de'', track ''en-GB'', track ''en''] t
      else t = hd [track ''de'', track ''en-GB'', track ''en'']))"
proof -
  have h: "[track ''de'', track ''en-GB'', track ''en''] \<noteq> []" by simp
  have v: "selectTrack [track ''de'', track ''en-GB'', track ''en''] (js ''en-US'') = Inr (track ''en-GB'')"
    by code_simp
  show ?thesis
    using h v selectTrack_tiers[OF h, of "js ''en-US''"] by (intro conjI)
qed

section \<open>The command leaves the note alone unless it succeeds\<close>

lemma includes_sublist: "includes_str s p = sublist p s"
proof (induction s)
  case Nil
  then show ?case by auto
next
  case (Cons x xs)
  show ?case
  proof (cases p)
    case Nil
    then show ?thesis by simp
  next
    case (Cons y ys)
    then show ?thesis
      using Cons.IH by (simp add: startsWith_prefix sublist_Cons_right)
  qed
qed

text \<open>
  Claim C9. Whatever \<open>fetchTranscript\<close> does: when the note contains the configured
  heading the command ends with the text of the note as it was and the notice that the
  note has a transcript section already; the text is also as it was when no URL is
  detected, when no identifier is extracted from the first URL, when \<open>fetchTranscript\<close>
  throws, and when it returns no entries. The text of the note differs afterwards only
  when the heading is absent, a URL is detected, an identifier is extracted from the first
  one and entries are fetched, and then it is the old text, a line break and the fragment.
\<close>

theorem document_changed_only_on_success:
  assumes "fetchTranscriptForCurrentNote settings fetchTranscript (Some content) = (file', notices)"
  shows
   "(sublist (sectionHeading settings) content \<longrightarrow>
       file' = Some content \<and> notices = [js ''This note already has a transcript section'']) \<and>
    (findYouTubeUrls content = [] \<longrightarrow> file' = Some content) \<and>
    (\<forall>u us. findYouTubeUrls content = u # us \<and> extractVideoId u = None \<longrightarrow> file' = Some content) \<and>
    (\<forall>u us v e. findYouTubeUrls content = u # us \<and> extractVideoId u = Some v \<and>
        fetchTranscript v (preferred settings) = Inl e \<longrightarrow> file' = Some content) \<and>
    (\<forall>u us v. findYouTubeUrls content = u # us \<and> extractVideoId u = Some v \<and>
        fetchTranscript v (preferred settings) = Inr [] \<longrightarrow> file' = Some content) \<and>
    (file' = Some content \<or>
     (\<exists>u us v es. \<not> sublist (sectionHeading settings) content \<and>
        findYouTubeUrls content = u # us \<and> extractVideoId u = Some v \<and>
        fetchTranscript v (preferred settings) = Inr es \<and> es \<noteq> [] \<and>
        file' = Some (content @ js ''\<newline>'' @ formatTranscript es (options_of settings))))"
  using assms
  unfolding fetchTranscriptForCurrentNote_def hasTranscriptSection_def includes_sublist
    preferred_def[symmetric] options_of_def[symmetric] Let_def truthy_def
  by (auto split: if_splits list.splits option.splits sum.splits)

theorem document_changed_only_on_success_witness:
  "fetchTranscriptForCurrentNote DEFAULT_SETTINGS (\<lambda>videoId lang. Inr scenario_entries)
       (Some (js ''https://youtu.be/dQw4w9WgXcQ''))
     = (Some (js ''https://youtu.be/dQw4w9WgXcQ\<newline>\<newline>## Transcript\<newline>\<newline>We're no strangers to love''),
        [js ''Fetching transcript...'', js ''Transcript added (2 entries)''])
   \<and> (\<exists>u us v es. \<not> sublist (sectionHeading DEFAULT_SETTINGS) (js ''https://youtu.be/dQw4w9WgXcQ'') \<and>
        findYouTubeUrls (js ''https://youtu.be/dQw4w9WgXcQ'') = u # us \<and> extractVideoId u = Some v \<and>
        Inr scenario_entries = Inr es \<and> es \<noteq> [] \<and>
        Some (js ''https://youtu.be/dQw4w9WgXcQ\<newline>\<newline>## Transcript\<newline>\<newline>We're no strangers to love'')
          = Some (js ''https://youtu.be/dQw4w9WgXcQ'' @ js ''\<newline>'' @ formatTranscript es (options_of DEFAULT_SETTINGS)))"
proof -
  have run: "fetchTranscriptForCurrentNote DEFAULT_SETTINGS (\<lambda>videoId lang. Inr scenario_entries)
       (Some (js ''https://youtu.be/dQw4w9WgXcQ''))
     = (Some (js ''https://youtu.be/dQw4w9WgXcQ\<newline>\<newline>## Transcript\<newline>\<newline>We're no strangers to love''),
        [js ''Fetching transcript...'', js ''Transcript added (2 entries)''])"
    by code_simp
  have ne: "Some (js ''https://youtu.be/dQw4w9WgXcQ\<newline>\<newline>## Transcript\<newline>\<newline>We're no strangers to love'')
      \<noteq> Some (js ''https://youtu.be/dQw4w9WgXcQ'')"
    by (simp add: js_def)
  show ?thesis
    using run ne document_changed_only_on_success[OF run] by blast
qed

end
